theory Spec2Isabelle
  imports Complex_Main "HOL-Library.Word" "HOL-Library.Multiset"
begin

unbundle bit_operations_syntax

section \<open>Errors raised by the Python code\<close>

datatype py_error = ZeroDivisionError | IndexError | ValueError

section \<open>Adaptive rate limiter (core/rate\_limiter.py)\<close>

text \<open>
  Python floats are read as real numbers: the delays of the limiter are products of a
  few small constants and the comparisons of the code are the comparisons of the reals
  on them. Rounding, infinities and NaN are outside this model. The wall clock
  (\<^verbatim>\<open>time.time()\<close>) is an argument \<open>now\<close> of every operation that reads it.
\<close>

record DomainState =
  last_request_time :: real
  request_count :: int
  error_count :: int
  consecutive_errors :: int
  avg_response_time :: real
  current_delay :: real
  response_times :: "real list"

text \<open>The dataclass defaults of \<^verbatim>\<open>DomainState()\<close>.\<close>

definition DomainState_default :: DomainState where
  "DomainState_default =
     \<lparr>last_request_time = 0, request_count = 0, error_count = 0,
      consecutive_errors = 0, avg_response_time = 0, current_delay = 1,
      response_times = []\<rparr>"

text \<open>\<^verbatim>\<open>xs[-50:]\<close>: the last 50 elements, all of them when there are fewer.\<close>

definition last50 :: "'a list \<Rightarrow> 'a list" where
  "last50 xs = drop (length xs - 50) xs"

definition record_request :: "DomainState \<Rightarrow> real \<Rightarrow> bool \<Rightarrow> real \<Rightarrow> DomainState" where
  "record_request st response_time success now =
     (let st1 = st\<lparr>last_request_time := now, request_count := request_count st + 1\<rparr>
      in if success then
           (let ts = last50 (response_times st1 @ [response_time])
            in st1\<lparr>consecutive_errors := 0, response_times := ts,
                    avg_response_time := sum_list ts / real (length ts)\<rparr>)
         else st1\<lparr>error_count := error_count st1 + 1,
                  consecutive_errors := consecutive_errors st1 + 1\<rparr>)"

record AdaptiveRateLimiter =
  base_delay :: real
  min_delay :: real
  max_delay :: real
  adaptive :: bool
  jitter :: real
  domains :: "string \<rightharpoonup> DomainState"

text \<open>
  \<^verbatim>\<open>AdaptiveRateLimiter.__init__\<close>; \<^verbatim>\<open>1.0 / requests_per_second\<close> raises
  ZeroDivisionError at 0. No domain has a state yet.
\<close>

definition limiter_init :: "real \<Rightarrow> real \<Rightarrow> real \<Rightarrow> bool \<Rightarrow> real \<Rightarrow> py_error + AdaptiveRateLimiter" where
  "limiter_init requests_per_second mn mx adp jit =
     (if requests_per_second = 0 then Inl ZeroDivisionError
      else Inr \<lparr>base_delay = 1 / requests_per_second, min_delay = mn, max_delay = mx,
                adaptive = adp, jitter = jit, domains = Map.empty\<rparr>)"

text \<open>
  \<^verbatim>\<open>self._domains[domain]\<close> on a \<^verbatim>\<open>defaultdict(DomainState)\<close>: the state stored for
  the domain, a fresh \<^verbatim>\<open>DomainState()\<close> when there is none.
\<close>

definition domain_state :: "AdaptiveRateLimiter \<Rightarrow> string \<Rightarrow> DomainState" where
  "domain_state rl domain =
     (case domains rl domain of None \<Rightarrow> DomainState_default | Some st \<Rightarrow> st)"

definition adjust_delay :: "AdaptiveRateLimiter \<Rightarrow> DomainState \<Rightarrow> int \<Rightarrow> DomainState" where
  "adjust_delay rl st status_code =
     (if status_code = 429 then
        st\<lparr>current_delay := min (current_delay st * 3) (max_delay rl)\<rparr>
      else if status_code \<ge> 500 then
        st\<lparr>current_delay := min (current_delay st * 2) (max_delay rl)\<rparr>
      else if consecutive_errors st \<ge> 3 then
        st\<lparr>current_delay := min (current_delay st * 2) (max_delay rl)\<rparr>
      else if consecutive_errors st = 0 \<and> status_code < 400 then
        st\<lparr>current_delay := max (current_delay st * (95 / 100)) (min_delay rl)\<rparr>
      else st)"

definition record_result :: "AdaptiveRateLimiter \<Rightarrow> string \<Rightarrow> real \<Rightarrow> bool \<Rightarrow> int \<Rightarrow> real \<Rightarrow> AdaptiveRateLimiter" where
  "record_result rl domain response_time success status_code now =
     (let st = record_request (domain_state rl domain) response_time success now;
          st' = (if adaptive rl then adjust_delay rl st status_code else st)
      in rl\<lparr>domains := (domains rl)(domain \<mapsto> st')\<rparr>)"

definition calculate_delay :: "AdaptiveRateLimiter \<Rightarrow> DomainState \<Rightarrow> real" where
  "calculate_delay rl st = (if adaptive rl then current_delay st else base_delay rl)"

definition set_crawl_delay :: "AdaptiveRateLimiter \<Rightarrow> string \<Rightarrow> real \<Rightarrow> AdaptiveRateLimiter" where
  "set_crawl_delay rl domain delay =
     rl\<lparr>domains := (domains rl)(domain \<mapsto>
            (domain_state rl domain)\<lparr>current_delay := max delay (min_delay rl)\<rparr>)\<rparr>"

text \<open>The limiter of the default arguments: 2 requests per second, delays in [0.5, 10].\<close>

definition default_limiter :: AdaptiveRateLimiter where
  "default_limiter =
     \<lparr>base_delay = 1 / 2, min_delay = 1 / 2, max_delay = 10,
      adaptive = True, jitter = 3 / 10, domains = Map.empty\<rparr>"

section \<open>The binary heap of the standard library (heapq)\<close>

text \<open>
  The frontier keeps its queue in a Python list handled by \<^verbatim>\<open>heapq.heappush\<close> and
  \<^verbatim>\<open>heapq.heappop\<close>. Both are modelled position by position, with the comparison
  \<open>lt\<close> of the elements (\<^verbatim>\<open>__lt__\<close>) as a parameter. In \<^verbatim>\<open>_siftdown\<close> the
  item travels from \<open>pos\<close> towards \<open>startpos\<close> while it is smaller than its parent.
\<close>

function siftdown_loop :: "('a \<Rightarrow> 'a \<Rightarrow> bool) \<Rightarrow> 'a list \<Rightarrow> nat \<Rightarrow> nat \<Rightarrow> 'a \<Rightarrow> 'a list" where
  "siftdown_loop lt heap startpos pos newitem =
     (if pos > startpos then
        (let parentpos = (pos - 1) div 2;
             parent = heap ! parentpos
         in if lt newitem parent
            then siftdown_loop lt (heap[pos := parent]) startpos parentpos newitem
            else heap[pos := newitem])
      else heap[pos := newitem])"
  by pat_completeness auto
termination
  by (relation "measure (\<lambda>(lt, heap, startpos, pos, newitem). pos)") auto

declare siftdown_loop.simps [simp del]

definition siftdown :: "('a \<Rightarrow> 'a \<Rightarrow> bool) \<Rightarrow> 'a list \<Rightarrow> nat \<Rightarrow> nat \<Rightarrow> 'a list" where
  "siftdown lt heap startpos pos = siftdown_loop lt heap startpos pos (heap ! pos)"

text \<open>
  \<^verbatim>\<open>_siftup\<close> first moves the smaller child up until the vacated position is a leaf
  (the loop below returns the list and that leaf), then puts the item there and lets
  \<^verbatim>\<open>_siftdown\<close> carry it back up.
\<close>

function siftup_loop :: "('a \<Rightarrow> 'a \<Rightarrow> bool) \<Rightarrow> 'a list \<Rightarrow> nat \<Rightarrow> nat \<Rightarrow> nat \<Rightarrow> 'a list \<times> nat" where
  "siftup_loop lt heap endpos pos childpos =
     (if childpos < endpos then
        (let rightpos = childpos + 1;
             childpos' = (if rightpos < endpos \<and> \<not> lt (heap ! childpos) (heap ! rightpos)
                          then rightpos else childpos)
         in siftup_loop lt (heap[pos := heap ! childpos']) endpos childpos' (2 * childpos' + 1))
      else (heap, pos))"
  by pat_completeness auto
termination
  by (relation "measure (\<lambda>(lt, heap, endpos, pos, childpos). endpos - childpos)") auto

declare siftup_loop.simps [simp del]

definition siftup :: "('a \<Rightarrow> 'a \<Rightarrow> bool) \<Rightarrow> 'a list \<Rightarrow> nat \<Rightarrow> 'a list" where
  "siftup lt heap pos =
     (let endpos = length heap;
          startpos = pos;
          newitem = heap ! pos
      in case siftup_loop lt heap endpos pos (2 * pos + 1) of
           (heap', pos') \<Rightarrow> siftdown lt (heap'[pos' := newitem]) startpos pos')"

definition heappush :: "('a \<Rightarrow> 'a \<Rightarrow> bool) \<Rightarrow> 'a list \<Rightarrow> 'a \<Rightarrow> 'a list" where
  "heappush lt heap item = siftdown lt (heap @ [item]) 0 (length (heap @ [item]) - 1)"

text \<open>\<^verbatim>\<open>heappop\<close> returns the popped item and the list left; on [] \<^verbatim>\<open>heap.pop()\<close> raises.\<close>

definition heappop :: "('a \<Rightarrow> 'a \<Rightarrow> bool) \<Rightarrow> 'a list \<Rightarrow> py_error + ('a \<times> 'a list)" where
  "heappop lt heap =
     (if heap = [] then Inl IndexError
      else (let lastelt = last heap;
                heap' = butlast heap
            in if heap' \<noteq> [] then Inr (heap' ! 0, siftup lt (heap'[0 := lastelt]) 0)
               else Inr (lastelt, heap')))"

section \<open>Hashing of URLs (utils/hash\_utils.py)\<close>

text \<open>
  Python strings are modelled as Isabelle strings, exact on ASCII text: \<open>lower\<close> maps
  A-Z to a-z and leaves every other character, \<open>strip\<close> removes the white space of
  \<^verbatim>\<open>str.strip()\<close> (codes 9 to 13, 28 to 32) at both ends.
\<close>

definition lower_char :: "char \<Rightarrow> char" where
  "lower_char c =
     (let n = (of_char c :: nat) in if 65 \<le> n \<and> n \<le> 90 then char_of (n + 32) else c)"

definition lower :: "string \<Rightarrow> string" where
  "lower s = map lower_char s"

definition is_space :: "char \<Rightarrow> bool" where
  "is_space c = (let n = (of_char c :: nat) in (9 \<le> n \<and> n \<le> 13) \<or> (28 \<le> n \<and> n \<le> 32))"

definition strip :: "string \<Rightarrow> string" where
  "strip s = rev (dropWhile is_space (rev (dropWhile is_space s)))"

text \<open>
  MD5 (RFC 1321), as \<^verbatim>\<open>hashlib.md5\<close> computes it: the shift amounts, the sine
  table, the padding to a multiple of 64 bytes with the bit length in the last 8, the
  64 steps on each block of 16 little-endian words, and the digest in lower-case hex.
\<close>

definition md5_s :: "nat list" where
  "md5_s = [7, 12, 17, 22, 7, 12, 17, 22, 7, 12, 17, 22, 7, 12, 17, 22,
            5, 9, 14, 20, 5, 9, 14, 20, 5, 9, 14, 20, 5, 9, 14, 20,
            4, 11, 16, 23, 4, 11, 16, 23, 4, 11, 16, 23, 4, 11, 16, 23,
            6, 10, 15, 21, 6, 10, 15, 21, 6, 10, 15, 21, 6, 10, 15, 21]"

definition md5_K :: "32 word list" where
  "md5_K = [0xd76aa478, 0xe8c7b756, 0x242070db, 0xc1bdceee,
            0xf57c0faf, 0x4787c62a, 0xa8304613, 0xfd469501,
            0x698098d8, 0x8b44f7af, 0xffff5bb1, 0x895cd7be,
            0x6b901122, 0xfd987193, 0xa679438e, 0x49b40821,
            0xf61e2562, 0xc040b340, 0x265e5a51, 0xe9b6c7aa,
            0xd62f105d, 0x02441453, 0xd8a1e681, 0xe7d3fbc8,
            0x21e1cde6, 0xc33707d6, 0xf4d50d87, 0x455a14ed,
            0xa9e3e905, 0xfcefa3f8, 0x676f02d9, 0x8d2a4c8a,
            0xfffa3942, 0x8771f681, 0x6d9d6122, 0xfde5380c,
            0xa4beea44, 0x4bdecfa9, 0xf6bb4b60, 0xbebfbc70,
            0x289b7ec6, 0xeaa127fa, 0xd4ef3085, 0x04881d05,
            0xd9d4d039, 0xe6db99e5, 0x1fa27cf8, 0xc4ac5665,
            0xf4292244, 0x432aff97, 0xab9423a7, 0xfc93a039,
            0x655b59c3, 0x8f0ccc92, 0xffeff47d, 0x85845dd1,
            0x6fa87e4f, 0xfe2ce6e0, 0xa3014314, 0x4e0811a1,
            0xf7537e82, 0xbd3af235, 0x2ad7d2bb, 0xeb86d391]"

definition rotl32 :: "32 word \<Rightarrow> nat \<Rightarrow> 32 word" where
  "rotl32 x n = (push_bit n x) OR (drop_bit (32 - n) x)"

fun le_word :: "8 word list \<Rightarrow> 32 word" where
  "le_word [] = 0"
| "le_word (b # bs) = ucast b + push_bit 8 (le_word bs)"

fun chunks :: "nat \<Rightarrow> 'a list \<Rightarrow> 'a list list" where
  "chunks n [] = []"
| "chunks n (x # xs) = (if n = 0 then [] else take n (x # xs) # chunks n (drop n (x # xs)))"

definition le_bytes :: "nat \<Rightarrow> 'a::len word \<Rightarrow> 8 word list" where
  "le_bytes k w = map (\<lambda>i. ucast (drop_bit (8 * i) w)) [0..<k]"

definition md5_pad :: "8 word list \<Rightarrow> 8 word list" where
  "md5_pad msg = msg @ [0x80] @ replicate ((64 - (length msg + 9) mod 64) mod 64) 0
                 @ le_bytes 8 (word_of_nat (8 * length msg) :: 64 word)"

type_synonym md5_state = "32 word \<times> 32 word \<times> 32 word \<times> 32 word"

definition md5_step :: "32 word list \<Rightarrow> md5_state \<Rightarrow> nat \<Rightarrow> md5_state" where
  "md5_step M st i =
     (case st of (A, B, C, D) \<Rightarrow>
        let (F, g) =
              (if i < 16 then ((B AND C) OR (NOT B AND D), i)
               else if i < 32 then ((D AND B) OR (NOT D AND C), (5 * i + 1) mod 16)
               else if i < 48 then (B XOR C XOR D, (3 * i + 5) mod 16)
               else (C XOR (B OR NOT D), (7 * i) mod 16));
            F' = F + A + md5_K ! i + M ! g
        in (D, B + rotl32 F' (md5_s ! i), B, C))"

definition md5_block :: "md5_state \<Rightarrow> 8 word list \<Rightarrow> md5_state" where
  "md5_block st blk =
     (case st of (a0, b0, c0, d0) \<Rightarrow>
        case foldl (md5_step (map le_word (chunks 4 blk))) st [0..<64] of
          (A, B, C, D) \<Rightarrow> (a0 + A, b0 + B, c0 + C, d0 + D))"

definition md5_digest :: "8 word list \<Rightarrow> 8 word list" where
  "md5_digest msg =
     (case foldl md5_block (0x67452301, 0xefcdab89, 0x98badcfe, 0x10325476) (chunks 64 (md5_pad msg)) of
        (a, b, c, d) \<Rightarrow> concat (map (\<lambda>w. le_bytes 4 w) [a, b, c, d]))"

definition hex_digit :: "nat \<Rightarrow> char" where
  "hex_digit n = ''0123456789abcdef'' ! n"

definition hexdigest :: "8 word list \<Rightarrow> string" where
  "hexdigest bs = concat (map (\<lambda>b. [hex_digit (unat b div 16), hex_digit (unat b mod 16)]) bs)"

text \<open>\<^verbatim>\<open>hashlib.md5(content.encode("utf-8")).hexdigest()\<close>\<close>

definition md5_hash :: "string \<Rightarrow> string" where
  "md5_hash content = hexdigest (md5_digest (map (\<lambda>c. word_of_nat (of_char c)) content))"


definition url_hash :: "string \<Rightarrow> string" where
  "url_hash u = md5_hash (strip (lower u))"

section \<open>SimHash distance and similarity (utils/hash\_utils.py)\<close>

text \<open>
  Python integers are unbounded: the hashes are of type int. The loop of
  \<^verbatim>\<open>hamming_distance\<close> clears the lowest one bit until nothing is left, which never
  happens on a negative number: not returning is the value None. \<^verbatim>\<open>similarity\<close>
  divides by \<^verbatim>\<open>self.hash_bits\<close> (ZeroDivisionError at 0); for 64 bits and a distance of
  at most 64 the float operations are exact and are read as operations on reals.
\<close>

partial_function (option) hamming_loop :: "int \<Rightarrow> int \<Rightarrow> int option" where
  "hamming_loop x distance =
     (if x \<noteq> 0 then hamming_loop (x AND (x - 1)) (distance + 1) else Some distance)"

definition hamming_distance :: "int \<Rightarrow> int \<Rightarrow> int option" where
  "hamming_distance hash1 hash2 = hamming_loop (hash1 XOR hash2) 0"

definition similarity :: "int \<Rightarrow> int \<Rightarrow> int \<Rightarrow> (py_error + real) option" where
  "similarity hash_bits hash1 hash2 =
     (case hamming_distance hash1 hash2 of
        None \<Rightarrow> None
      | Some distance \<Rightarrow>
          Some (if hash_bits = 0 then Inl ZeroDivisionError
                else Inr (1 - real_of_int distance / real_of_int hash_bits)))"

text \<open>
  The number of one bits of a natural number (the popcount of the specification); it
  is the number of positions at which the bit is set (lemma \<open>popcount_card\<close>).
\<close>

fun popcount :: "nat \<Rightarrow> nat" where
  "popcount n = (if n = 0 then 0 else n mod 2 + popcount (n div 2))"

declare popcount.simps [simp del]

section \<open>URL frontier (core/url\_frontier.py)\<close>

datatype URLPriority = CRITICAL | HIGH | NORMAL | LOW | DEFERRED

fun priority_value :: "URLPriority \<Rightarrow> int" where
  "priority_value CRITICAL = 0"
| "priority_value HIGH = 1"
| "priority_value NORMAL = 2"
| "priority_value LOW = 3"
| "priority_value DEFERRED = 4"

record URLEntry =
  priority :: int
  depth :: int
  url :: string
  parent_url :: string
  discovered_at :: real
  retry_count :: int
  metadata :: "(string \<times> string) list"

text \<open>
  The dataclass is declared \<^verbatim>\<open>order=True\<close> and every field but \<^verbatim>\<open>priority\<close> has
  \<^verbatim>\<open>compare=False\<close>: the generated \<^verbatim>\<open>__lt__\<close> compares the priorities only.
\<close>

definition entry_lt :: "URLEntry \<Rightarrow> URLEntry \<Rightarrow> bool" where
  "entry_lt a b = (priority a < priority b)"

record URLFrontier =
  max_depth :: int
  max_urls :: int
  queue :: "URLEntry list"
  seen_urls :: "string set"
  crawled_urls :: "string set"
  failed_urls :: "string \<rightharpoonup> int"
  not_empty :: bool
  total_added :: int
  total_duplicates_skipped :: int

definition frontier_init :: "int \<Rightarrow> int \<Rightarrow> URLFrontier" where
  "frontier_init md mu =
     \<lparr>max_depth = md, max_urls = mu, queue = [], seen_urls = {}, crawled_urls = {},
      failed_urls = Map.empty, not_empty = False, total_added = 0,
      total_duplicates_skipped = 0\<rparr>"

text \<open>
  \<^verbatim>\<open>add\<close> returns its result and the frontier after the call. \<open>md\<close> is the optional
  metadata (\<^verbatim>\<open>metadata or {}\<close>), \<open>now\<close> the clock read by the entry's
  \<^verbatim>\<open>default_factory\<close>.
\<close>

definition add :: "URLFrontier \<Rightarrow> string \<Rightarrow> int \<Rightarrow> URLPriority \<Rightarrow> string
    \<Rightarrow> (string \<times> string) list option \<Rightarrow> real \<Rightarrow> bool \<times> URLFrontier" where
  "add f u d p parent md now =
     (let uhash = url_hash u
      in if uhash \<in> seen_urls f then
           (False, f\<lparr>total_duplicates_skipped := total_duplicates_skipped f + 1\<rparr>)
         else if d > max_depth f then (False, f)
         else if int (length (queue f)) \<ge> max_urls f then (False, f)
         else
           (let entry = \<lparr>priority = priority_value p, depth = d, url = u, parent_url = parent,
                          discovered_at = now, retry_count = 0,
                          metadata = (case md of None \<Rightarrow> [] | Some m \<Rightarrow> m)\<rparr>
            in (True, f\<lparr>seen_urls := insert uhash (seen_urls f),
                        queue := heappush entry_lt (queue f) entry,
                        total_added := total_added f + 1,
                        not_empty := True\<rparr>)))"

text \<open>
  \<^verbatim>\<open>get\<close>: when the event \<^verbatim>\<open>_not_empty\<close> is not set the wait ends with the timeout
  and the result is None (an \<^verbatim>\<open>add\<close> of another task during the wait is that
  \<^verbatim>\<open>add\<close> followed by this \<^verbatim>\<open>get\<close>).
\<close>

definition get :: "URLFrontier \<Rightarrow> py_error + (URLEntry option \<times> URLFrontier)" where
  "get f =
     (if \<not> not_empty f then Inr (None, f)
      else if queue f = [] then Inr (None, f\<lparr>not_empty := False\<rparr>)
      else (case heappop entry_lt (queue f) of
              Inl e \<Rightarrow> Inl e
            | Inr (entry, q) \<Rightarrow>
                Inr (Some entry, f\<lparr>queue := q, not_empty := (q \<noteq> [])\<rparr>)))"

definition mark_crawled :: "URLFrontier \<Rightarrow> string \<Rightarrow> URLFrontier" where
  "mark_crawled f u = f\<lparr>crawled_urls := insert (url_hash u) (crawled_urls f)\<rparr>"

definition failed_count :: "URLFrontier \<Rightarrow> string \<Rightarrow> int" where
  "failed_count f uhash = (case failed_urls f uhash of None \<Rightarrow> 0 | Some c \<Rightarrow> c)"

definition mark_failed :: "URLFrontier \<Rightarrow> string \<Rightarrow> int \<Rightarrow> bool \<times> URLFrontier" where
  "mark_failed f u max_retries =
     (let uhash = url_hash u;
          f' = f\<lparr>failed_urls := (failed_urls f)(uhash \<mapsto> failed_count f uhash + 1)\<rparr>
      in (failed_count f' uhash < max_retries, f'))"

definition is_empty :: "URLFrontier \<Rightarrow> bool" where
  "is_empty f = (length (queue f) = 0)"

section \<open>Crawler engine (core/crawler\_engine.py): the worker\<close>

text \<open>
  Every URL handled by the worker has one of three outcomes of \<^verbatim>\<open>_crawl_page\<close>: it
  raises, it returns None (robots refusal, non-success fetch, fetch exception caught
  inside), or it returns the page data, whose \<^verbatim>\<open>links\<close> hold the internal and the
  external links.
\<close>

record Page =
  links_internal :: "string list"
  links_external :: "string list"

datatype crawl_outcome = CrawlRaises | CrawlNone | CrawlPage Page

record CrawlerEngine =
  frontier :: URLFrontier
  follow_external_links :: bool
  pages_crawled :: int
  pages_failed :: int

text \<open>The loop \<^verbatim>\<open>for link in links: await self.frontier.add(...)\<close>; the n-th call reads \<open>clock n\<close>.\<close>

fun add_links :: "URLFrontier \<Rightarrow> string list \<Rightarrow> int \<Rightarrow> URLPriority \<Rightarrow> string \<Rightarrow> (nat \<Rightarrow> real) \<Rightarrow> nat
    \<Rightarrow> URLFrontier" where
  "add_links f [] d p parent clock n = f"
| "add_links f (link # links) d p parent clock n =
     add_links (snd (add f link d p parent None (clock n))) links d p parent clock (Suc n)"

definition process_links :: "CrawlerEngine \<Rightarrow> Page \<Rightarrow> string \<Rightarrow> int \<Rightarrow> (nat \<Rightarrow> real) \<Rightarrow> CrawlerEngine" where
  "process_links eng links parent d clock =
     (let f1 = add_links (frontier eng) (links_internal links) d NORMAL parent clock 0;
          f2 = (if follow_external_links eng
                then add_links f1 (take 10 (links_external links)) d DEFERRED parent clock
                       (length (links_internal links))
                else f1)
      in eng\<lparr>frontier := f2\<rparr>)"

text \<open>
  The body of the worker loop for a popped entry: the \<^verbatim>\<open>try\<close> block with the result of
  \<^verbatim>\<open>_crawl_page\<close>, and the \<^verbatim>\<open>except\<close> block with the retry logic
  (\<^verbatim>\<open>mark_failed(url)\<close> with its default of 3 retries, then \<^verbatim>\<open>add\<close> at LOW).
\<close>

definition handle_entry :: "CrawlerEngine \<Rightarrow> URLEntry \<Rightarrow> crawl_outcome \<Rightarrow> (nat \<Rightarrow> real) \<Rightarrow> CrawlerEngine" where
  "handle_entry eng entry outcome clock =
     (let u = url entry; d = depth entry
      in case outcome of
           CrawlPage page \<Rightarrow>
             process_links
               (eng\<lparr>frontier := mark_crawled (frontier eng) u,
                    pages_crawled := pages_crawled eng + 1\<rparr>) page u (d + 1) clock
         | CrawlNone \<Rightarrow> eng\<lparr>pages_failed := pages_failed eng + 1\<rparr>
         | CrawlRaises \<Rightarrow>
             (let eng1 = eng\<lparr>pages_failed := pages_failed eng + 1\<rparr>;
                  (should_retry, f1) = mark_failed (frontier eng1) u 3
              in if should_retry
                 then eng1\<lparr>frontier := snd (add f1 u d LOW [] None (clock 0))\<rparr>
                 else eng1\<lparr>frontier := f1\<rparr>))"

datatype loop_ctl = Continue | Break

text \<open>One turn of \<^verbatim>\<open>while self._running\<close>: \<^verbatim>\<open>get\<close>, then the body or the end of the loop.\<close>

definition worker_step :: "CrawlerEngine \<Rightarrow> crawl_outcome \<Rightarrow> (nat \<Rightarrow> real)
    \<Rightarrow> py_error + (loop_ctl \<times> CrawlerEngine)" where
  "worker_step eng outcome clock =
     (case get (frontier eng) of
        Inl e \<Rightarrow> Inl e
      | Inr (None, f) \<Rightarrow> Inr (if is_empty f then Break else Continue, eng\<lparr>frontier := f\<rparr>)
      | Inr (Some entry, f) \<Rightarrow>
          Inr (Continue, handle_entry (eng\<lparr>frontier := f\<rparr>) entry outcome clock))"

section \<open>Notions used to state the properties\<close>

text \<open>
  A list is a heap for the key \<open>k\<close> when no element has a smaller key than its parent,
  the parent of position i being (i - 1) div 2. \<open>heap_hole\<close> is the same with one
  position left out, whose children are then compared with its parent.
\<close>

definition heap_ok :: "('a \<Rightarrow> 'k::linorder) \<Rightarrow> 'a list \<Rightarrow> bool" where
  "heap_ok k h = (\<forall>i\<in>{1..<length h}. k (h ! ((i - 1) div 2)) \<le> k (h ! i))"

definition heap_hole :: "('a \<Rightarrow> 'k::linorder) \<Rightarrow> 'a list \<Rightarrow> nat \<Rightarrow> bool" where
  "heap_hole k h pos =
     ((\<forall>i\<in>{1..<length h}. i \<noteq> pos \<and> (i - 1) div 2 \<noteq> pos \<longrightarrow> k (h ! ((i - 1) div 2)) \<le> k (h ! i)) \<and>
      (\<forall>c\<in>{1..<length h}. 0 < pos \<and> (c - 1) div 2 = pos \<longrightarrow> k (h ! ((pos - 1) div 2)) \<le> k (h ! c)))"

text \<open>
  The invariant of the frontier: the queue is a heap for the priority, every queued URL
  has its hash in the seen set and a depth within the limit, the queue is no longer
  than a non-negative \<open>max_urls\<close>, and the event is set exactly when the queue is not
  empty.
\<close>

definition frontier_inv :: "URLFrontier \<Rightarrow> bool" where
  "frontier_inv f =
     (heap_ok priority (queue f) \<and>
      (\<forall>e\<in>set (queue f). url_hash (url e) \<in> seen_urls f) \<and>
      (\<forall>e\<in>set (queue f). depth e \<le> max_depth f) \<and>
      (0 \<le> max_urls f \<longrightarrow> int (length (queue f)) \<le> max_urls f) \<and>
      (not_empty f \<longleftrightarrow> queue f \<noteq> []))"

text \<open>
  The order of the data model in the specification: lexicographic on
  (priority, depth, discovery time).
\<close>

definition spec_tuple_less :: "URLEntry \<Rightarrow> URLEntry \<Rightarrow> bool" where
  "spec_tuple_less a b =
     (priority a < priority b \<or>
      (priority a = priority b \<and>
       (depth a < depth b \<or> (depth a = depth b \<and> discovered_at a < discovered_at b))))"

text \<open>The frontier states that the operations of the class produce from a new frontier.\<close>

inductive reachable :: "URLFrontier \<Rightarrow> bool" where
  reachable_init: "reachable (frontier_init md mu)"
| reachable_add: "reachable f \<Longrightarrow> reachable (snd (add f u d p parent m now))"
| reachable_get: "reachable f \<Longrightarrow> get f = Inr (r, f') \<Longrightarrow> reachable f'"
| reachable_mark_crawled: "reachable f \<Longrightarrow> reachable (mark_crawled f u)"
| reachable_mark_failed: "reachable f \<Longrightarrow> reachable (snd (mark_failed f u n))"

section \<open>Concrete frontiers\<close>

text \<open>
  Four entries of NORMAL priority discovered at the same time, the frontier (of the
  default limits 3 and 1000) after their four adds, and the frontier after the add of a
  seed and after its pop.
\<close>

definition entry_a :: URLEntry where
  "entry_a = \<lparr>priority = 2, depth = 2, url = ''http://a.test/a'', parent_url = [],
              discovered_at = 5, retry_count = 0, metadata = []\<rparr>"

definition entry_b :: URLEntry where
  "entry_b = \<lparr>priority = 2, depth = 2, url = ''http://a.test/b'', parent_url = [],
              discovered_at = 5, retry_count = 0, metadata = []\<rparr>"

definition entry_c :: URLEntry where
  "entry_c = \<lparr>priority = 2, depth = 2, url = ''http://a.test/c'', parent_url = [],
              discovered_at = 5, retry_count = 0, metadata = []\<rparr>"

definition entry_d :: URLEntry where
  "entry_d = \<lparr>priority = 2, depth = 1, url = ''http://a.test/d'', parent_url = [],
              discovered_at = 5, retry_count = 0, metadata = []\<rparr>"

definition four_added :: URLFrontier where
  "four_added =
     snd (add (snd (add (snd (add (snd (add (frontier_init 3 1000)
       ''http://a.test/a'' 2 NORMAL [] None 5))
       ''http://a.test/b'' 2 NORMAL [] None 5))
       ''http://a.test/c'' 2 NORMAL [] None 5))
       ''http://a.test/d'' 1 NORMAL [] None 5)"

definition seed_entry :: URLEntry where
  "seed_entry = \<lparr>priority = 0, depth = 0, url = ''http://a.test/'', parent_url = [],
                 discovered_at = 0, retry_count = 0, metadata = []\<rparr>"

definition seed_popped :: URLFrontier where
  "seed_popped =
     \<lparr>max_depth = 3, max_urls = 1000, queue = [], seen_urls = {url_hash ''http://a.test/''},
      crawled_urls = {}, failed_urls = Map.empty, not_empty = False, total_added = 1,
      total_duplicates_skipped = 0\<rparr>"

definition engine_of :: "URLFrontier \<Rightarrow> CrawlerEngine" where
  "engine_of f = \<lparr>frontier = f, follow_external_links = False, pages_crawled = 0, pages_failed = 0\<rparr>"

definition seed_added :: URLFrontier where
  "seed_added = snd (add (frontier_init 3 1000) ''http://a.test/'' 0 CRITICAL [] None 0)"

section \<open>Rate limiter: properties\<close>

lemma default_limiter_init: "limiter_init 2 (1 / 2) 10 True (3 / 10) = Inr default_limiter"
  by (simp add: limiter_init_def default_limiter_def)

lemma current_delay_record_request [simp]:
  "current_delay (record_request st rt ok now) = current_delay st"
  by (simp add: record_request_def Let_def)

lemma domain_state_record_result:
  "domain_state (record_result rl domain rt ok code now) domain =
     (if adaptive rl then adjust_delay rl (record_request (domain_state rl domain) rt ok now) code
      else record_request (domain_state rl domain) rt ok now)"
  by (simp add: record_result_def domain_state_def Let_def)

text \<open>
  C5. With the adaptive flag on, recording status 429 for a domain sets its current
  delay to min (prev * 3) max\_delay, whatever the success flag, the response time and
  the clock are; prev is the delay the domain had before the call (that of a fresh
  state when the domain was unknown).
\<close>

theorem record_429_triples_capped:
  "adaptive rl \<Longrightarrow>
   current_delay (domain_state (record_result rl domain rt ok 429 now) domain) =
     min (current_delay (domain_state rl domain) * 3) (max_delay rl)"
  by (simp add: domain_state_record_result adjust_delay_def)

theorem record_429_triples_capped_witness:
  "adaptive default_limiter \<and>
   current_delay (domain_state (record_result default_limiter ''a.test'' 7 False 429 100) ''a.test'') = 3"
  using record_429_triples_capped [of default_limiter "''a.test''" 7 False 100]
  by (simp add: default_limiter_def domain_state_def DomainState_default_def)

lemma adjust_delay_bounds:
  assumes "0 \<le> min_delay rl" and "min_delay rl \<le> max_delay rl"
    and "min_delay rl \<le> current_delay st" and "current_delay st \<le> max_delay rl"
  shows "min_delay rl \<le> current_delay (adjust_delay rl st code) \<and>
         current_delay (adjust_delay rl st code) \<le> max_delay rl"
proof -
  have nonneg: "0 \<le> current_delay st"
    using assms(1,3) by linarith
  have shrink: "current_delay st * (95 / 100) \<le> max_delay rl"
    using nonneg assms(4) by linarith
  have grow3: "min_delay rl \<le> current_delay st * 3"
    using nonneg assms(3) by linarith
  have grow2: "min_delay rl \<le> current_delay st * 2"
    using nonneg assms(3) by linarith
  show ?thesis
    using assms shrink grow3 grow2 by (simp add: adjust_delay_def)
qed

text \<open>
  C4 (as amended). A domain without a state has the current delay 1, the dataclass
  default, whatever requests\_per\_second was given (1/requests\_per\_second is only
  base\_delay, the pacing of the non-adaptive mode). With 0 \<le> min\_delay \<le> max\_delay, a
  record call keeps a current delay that is within [min\_delay, max\_delay] within these
  bounds. set\_crawl\_delay sets the current delay to max delay min\_delay: at least
  min\_delay, with no cap at max\_delay.
\<close>

theorem current_delay_initial_and_bounds:
  "(limiter_init rps mn mx adp jit = Inr rl0 \<longrightarrow>
      base_delay rl0 = 1 / rps \<and> current_delay (domain_state rl0 domain) = 1) \<and>
   (0 \<le> min_delay rl \<and> min_delay rl \<le> max_delay rl \<and>
    min_delay rl \<le> current_delay (domain_state rl domain) \<and>
    current_delay (domain_state rl domain) \<le> max_delay rl \<longrightarrow>
      min_delay rl \<le> current_delay (domain_state (record_result rl domain rt ok code now) domain) \<and>
      current_delay (domain_state (record_result rl domain rt ok code now) domain) \<le> max_delay rl) \<and>
   current_delay (domain_state (set_crawl_delay rl domain delay) domain) = max delay (min_delay rl) \<and>
   min_delay rl \<le> current_delay (domain_state (set_crawl_delay rl domain delay) domain)"
proof (intro conjI impI)
  assume "limiter_init rps mn mx adp jit = Inr rl0"
  then have rl0: "rps \<noteq> 0" "rl0 = \<lparr>base_delay = 1 / rps, min_delay = mn, max_delay = mx,
      adaptive = adp, jitter = jit, domains = Map.empty\<rparr>"
    by (auto simp: limiter_init_def split: if_splits)
  show "base_delay rl0 = 1 / rps"
    by (simp add: rl0)
  show "current_delay (domain_state rl0 domain) = 1"
    by (simp add: rl0 domain_state_def DomainState_default_def)
next
  assume b: "0 \<le> min_delay rl \<and> min_delay rl \<le> max_delay rl \<and>
    min_delay rl \<le> current_delay (domain_state rl domain) \<and>
    current_delay (domain_state rl domain) \<le> max_delay rl"
  let ?st = "record_request (domain_state rl domain) rt ok now"
  have "min_delay rl \<le> current_delay (adjust_delay rl ?st code) \<and>
        current_delay (adjust_delay rl ?st code) \<le> max_delay rl"
    using b by (intro adjust_delay_bounds) simp_all
  then show "min_delay rl \<le> current_delay (domain_state (record_result rl domain rt ok code now) domain)"
    and "current_delay (domain_state (record_result rl domain rt ok code now) domain) \<le> max_delay rl"
    using b by (simp_all add: domain_state_record_result)
next
  show "current_delay (domain_state (set_crawl_delay rl domain delay) domain) = max delay (min_delay rl)"
    by (simp add: set_crawl_delay_def domain_state_def)
  then show "min_delay rl \<le> current_delay (domain_state (set_crawl_delay rl domain delay) domain)"
    by simp
qed

theorem current_delay_initial_and_bounds_witness:
  "limiter_init 2 (1 / 2) 10 True (3 / 10) = Inr default_limiter \<and>
   base_delay default_limiter = 1 / 2 \<and>
   current_delay (domain_state default_limiter ''a.test'') = 1 \<and>
   0 \<le> min_delay default_limiter \<and> min_delay default_limiter \<le> max_delay default_limiter \<and>
   min_delay default_limiter \<le> current_delay (domain_state default_limiter ''a.test'') \<and>
   current_delay (domain_state default_limiter ''a.test'') \<le> max_delay default_limiter \<and>
   min_delay default_limiter
     \<le> current_delay (domain_state (record_result default_limiter ''a.test'' 1 True 200 5) ''a.test'') \<and>
   current_delay (domain_state (record_result default_limiter ''a.test'' 1 True 200 5) ''a.test'')
     \<le> max_delay default_limiter \<and>
   current_delay (domain_state (set_crawl_delay default_limiter ''a.test'' 2) ''a.test'') = 2"
  using current_delay_initial_and_bounds
    [of 2 "1 / 2" 10 True "3 / 10" default_limiter "''a.test''" default_limiter 1 True 200 5 2]
    default_limiter_init
  by (simp add: default_limiter_def domain_state_def DomainState_default_def)

text \<open>
  C4 as stated fails twice on the limiter of the default arguments
  (requests\_per\_second = 2, min\_delay = 0.5, max\_delay = 10): the first current delay
  of a domain is 1 and not 1/2, and a robots crawl delay of 20 is taken as it is,
  above max\_delay.
\<close>

theorem current_delay_counterexample:
  "limiter_init 2 (1 / 2) 10 True (3 / 10) = Inr default_limiter \<and>
   current_delay (domain_state default_limiter ''a.test'') = 1 \<and>
   current_delay (domain_state default_limiter ''a.test'') \<noteq> 1 / 2 \<and>
   max_delay default_limiter = 10 \<and>
   current_delay (domain_state (set_crawl_delay default_limiter ''a.test'' 20) ''a.test'') = 20 \<and>
   \<not> current_delay (domain_state (set_crawl_delay default_limiter ''a.test'' 20) ''a.test'')
       \<le> max_delay default_limiter"
  by (simp add: limiter_init_def default_limiter_def set_crawl_delay_def domain_state_def
      DomainState_default_def)

section \<open>Binary heap: properties\<close>

lemma heap_okI:
  "(\<And>i. 0 < i \<Longrightarrow> i < length h \<Longrightarrow> k (h ! ((i - 1) div 2)) \<le> k (h ! i)) \<Longrightarrow> heap_ok k h"
  by (simp add: heap_ok_def)

lemma heap_okD:
  "heap_ok k h \<Longrightarrow> 0 < i \<Longrightarrow> i < length h \<Longrightarrow> k (h ! ((i - 1) div 2)) \<le> k (h ! i)"
  by (simp add: heap_ok_def)

lemma heap_holeI:
  assumes "\<And>i. 0 < i \<Longrightarrow> i < length h \<Longrightarrow> i \<noteq> pos \<Longrightarrow> (i - 1) div 2 \<noteq> pos
             \<Longrightarrow> k (h ! ((i - 1) div 2)) \<le> k (h ! i)"
    and "\<And>c. 0 < pos \<Longrightarrow> 0 < c \<Longrightarrow> c < length h \<Longrightarrow> (c - 1) div 2 = pos
             \<Longrightarrow> k (h ! ((pos - 1) div 2)) \<le> k (h ! c)"
  shows "heap_hole k h pos"
  using assms by (simp add: heap_hole_def)

lemma heap_holeD1:
  "heap_hole k h pos \<Longrightarrow> 0 < i \<Longrightarrow> i < length h \<Longrightarrow> i \<noteq> pos \<Longrightarrow> (i - 1) div 2 \<noteq> pos
     \<Longrightarrow> k (h ! ((i - 1) div 2)) \<le> k (h ! i)"
  by (simp add: heap_hole_def)

lemma heap_holeD2:
  "heap_hole k h pos \<Longrightarrow> 0 < pos \<Longrightarrow> 0 < c \<Longrightarrow> c < length h \<Longrightarrow> (c - 1) div 2 = pos
     \<Longrightarrow> k (h ! ((pos - 1) div 2)) \<le> k (h ! c)"
  by (simp add: heap_hole_def)

lemma parent_less: "0 < i \<Longrightarrow> (i - 1) div 2 < (i::nat)"
  by arith

lemma length_siftdown_loop:
  "length (siftdown_loop lt h s pos x) = length h"
proof (induction lt h s pos x rule: siftdown_loop.induct)
  case (1 lt heap startpos pos newitem)
  show ?case
    by (subst siftdown_loop.simps) (simp add: Let_def 1)
qed

text \<open>One step upwards keeps the shape "heap but for one position".\<close>

lemma heap_hole_up:
  assumes hole: "heap_hole k h pos" and pos: "0 < pos" "pos < length h"
  shows "heap_hole k (h[pos := h ! ((pos - 1) div 2)]) ((pos - 1) div 2)"
proof (rule heap_holeI)
  let ?pp = "(pos - 1) div 2"
  let ?h' = "h[pos := h ! ?pp]"
  have pp: "?pp < pos" using pos(1) by (rule parent_less)
  fix i assume i: "0 < i" "i < length ?h'" "i \<noteq> ?pp" "(i - 1) div 2 \<noteq> ?pp"
  have il: "i < length h" using i(2) by simp
  have ip: "i \<noteq> pos" using i(4) by auto
  show "k (?h' ! ((i - 1) div 2)) \<le> k (?h' ! i)"
  proof (cases "(i - 1) div 2 = pos")
    case True
    have "k (h ! ?pp) \<le> k (h ! i)"
      using heap_holeD2 [OF hole pos(1) i(1) il True] .
    then show ?thesis using True ip pos(2) by simp
  next
    case False
    have "k (h ! ((i - 1) div 2)) \<le> k (h ! i)"
      using heap_holeD1 [OF hole i(1) il ip False] .
    then show ?thesis using False ip by simp
  qed
next
  let ?pp = "(pos - 1) div 2"
  let ?h' = "h[pos := h ! ?pp]"
  have pp: "?pp < pos" using pos(1) by (rule parent_less)
  fix c assume c: "0 < ?pp" "0 < c" "c < length ?h'" "(c - 1) div 2 = ?pp"
  have cl: "c < length h" using c(3) by simp
  have ppl: "?pp < length h" using pp pos(2) by simp
  have gp: "(?pp - 1) div 2 < ?pp" using c(1) by (rule parent_less)
  have a: "k (h ! ((?pp - 1) div 2)) \<le> k (h ! ?pp)"
  proof (rule heap_holeD1 [OF hole c(1) ppl])
    show "?pp \<noteq> pos" using pp by simp
    show "(?pp - 1) div 2 \<noteq> pos" using gp pp by simp
  qed
  have g: "?h' ! ((?pp - 1) div 2) = h ! ((?pp - 1) div 2)"
    using gp pp by simp
  show "k (?h' ! ((?pp - 1) div 2)) \<le> k (?h' ! c)"
  proof (cases "c = pos")
    case True
    then show ?thesis using a g pos(2) by simp
  next
    case False
    have "k (h ! ((c - 1) div 2)) \<le> k (h ! c)"
    proof (rule heap_holeD1 [OF hole c(2) cl False])
      show "(c - 1) div 2 \<noteq> pos" using c(4) pp by simp
    qed
    then have "k (h ! ?pp) \<le> k (h ! c)" using c(4) by simp
    then show ?thesis using a g False by simp
  qed
qed

lemma heap_hole_fill:
  assumes hole: "heap_hole k h pos" and pos: "pos < length h"
    and up: "0 < pos \<Longrightarrow> k (h ! ((pos - 1) div 2)) \<le> k x"
    and kids: "\<And>c. 0 < c \<Longrightarrow> c < length h \<Longrightarrow> (c - 1) div 2 = pos \<Longrightarrow> k x \<le> k (h ! c)"
  shows "heap_ok k (h[pos := x])"
proof (rule heap_okI)
  fix i assume i: "0 < i" "i < length (h[pos := x])"
  have il: "i < length h" using i(2) by simp
  have pi: "(i - 1) div 2 < i" using i(1) by (rule parent_less)
  show "k (h[pos := x] ! ((i - 1) div 2)) \<le> k (h[pos := x] ! i)"
  proof (cases "i = pos")
    case True
    then show ?thesis using up i(1) pi pos by simp
  next
    case ne: False
    show ?thesis
    proof (cases "(i - 1) div 2 = pos")
      case True
      then show ?thesis using kids [OF i(1) il True] ne pos by simp
    next
      case False
      then show ?thesis using heap_holeD1 [OF hole i(1) il ne False] ne by simp
    qed
  qed
qed

lemma siftdown_loop_heap:
  assumes "pos < length h" and "heap_hole k h pos"
    and "\<And>c. 0 < c \<Longrightarrow> c < length h \<Longrightarrow> (c - 1) div 2 = pos \<Longrightarrow> k x \<le> k (h ! c)"
  shows "heap_ok k (siftdown_loop (\<lambda>a b. k a < k b) h 0 pos x)"
  using assms
proof (induction pos arbitrary: h rule: less_induct)
  case (less pos)
  let ?pp = "(pos - 1) div 2"
  show ?case
  proof (cases "0 < pos \<and> k x < k (h ! ?pp)")
    case True
    then have p0: "0 < pos" and lt: "k x < k (h ! ?pp)" by simp_all
    have pp: "?pp < pos" using p0 by (rule parent_less)
    let ?h' = "h[pos := h ! ?pp]"
    have hole': "heap_hole k ?h' ?pp"
      using less.prems(2) p0 less.prems(1) by (rule heap_hole_up)
    have kids': "k x \<le> k (?h' ! c)" if c: "0 < c" "c < length ?h'" "(c - 1) div 2 = ?pp" for c
    proof (cases "c = pos")
      case True
      then show ?thesis using lt less.prems(1) by simp
    next
      case False
      have "k (h ! ((c - 1) div 2)) \<le> k (h ! c)"
      proof (rule heap_holeD1 [OF less.prems(2) c(1) _ False])
        show "c < length h" using c(2) by simp
        show "(c - 1) div 2 \<noteq> pos" using c(3) pp by simp
      qed
      then show ?thesis using c(3) lt False by simp
    qed
    have "heap_ok k (siftdown_loop (\<lambda>a b. k a < k b) ?h' 0 ?pp x)"
    proof (rule less.IH [OF pp _ hole'])
      show "?pp < length ?h'" using pp less.prems(1) by simp
    qed (rule kids')
    moreover have "siftdown_loop (\<lambda>a b. k a < k b) h 0 pos x
        = siftdown_loop (\<lambda>a b. k a < k b) ?h' 0 ?pp x"
      using p0 lt by (subst siftdown_loop.simps) (simp add: Let_def)
    ultimately show ?thesis by simp
  next
    case False
    have eq: "siftdown_loop (\<lambda>a b. k a < k b) h 0 pos x = h[pos := x]"
      using False by (subst siftdown_loop.simps) (auto simp: Let_def)
    have "heap_ok k (h[pos := x])"
    proof (rule heap_hole_fill [OF less.prems(2) less.prems(1)])
      show "k (h ! ?pp) \<le> k x" if "0 < pos" using False that by auto
    qed (rule less.prems(3))
    then show ?thesis by (simp add: eq)
  qed
qed


lemma mset_update_shift:
  assumes "i < length h" and "j < length h" and "i \<noteq> j"
  shows "mset (h[i := h ! j, j := x]) = mset (h[i := x])"
proof -
  let ?ls = "h[i := x]"
  have "mset (?ls[j := ?ls ! i, i := ?ls ! j]) = mset ?ls"
    using assms by (intro mset_swap) simp_all
  moreover have "?ls[j := ?ls ! i, i := ?ls ! j] = h[i := h ! j, j := x]"
    using assms by (simp add: list_eq_iff_nth_eq nth_list_update)
  ultimately show ?thesis by simp
qed

lemma mset_siftdown_loop:
  "pos < length h \<Longrightarrow> mset (siftdown_loop lt h s pos x) = mset (h[pos := x])"
proof (induction pos arbitrary: h rule: less_induct)
  case (less pos)
  let ?pp = "(pos - 1) div 2"
  show ?case
  proof (cases "s < pos \<and> lt x (h ! ?pp)")
    case True
    then have p0: "0 < pos" by simp
    have pp: "?pp < pos" using p0 by (rule parent_less)
    have "siftdown_loop lt h s pos x = siftdown_loop lt (h[pos := h ! ?pp]) s ?pp x"
      using True by (subst siftdown_loop.simps) (simp add: Let_def)
    also have "mset \<dots> = mset (h[pos := h ! ?pp, ?pp := x])"
      using pp less.prems by (intro less.IH) simp_all
    also have "\<dots> = mset (h[pos := x])"
      using pp less.prems by (intro mset_update_shift) simp_all
    finally show ?thesis .
  next
    case False
    then show ?thesis by (subst siftdown_loop.simps) (auto simp: Let_def)
  qed
qed

lemma heap_hole_update:
  assumes "heap_hole k h pos"
  shows "heap_hole k (h[pos := v]) pos"
proof (rule heap_holeI)
  fix i assume i: "0 < i" "i < length (h[pos := v])" "i \<noteq> pos" "(i - 1) div 2 \<noteq> pos"
  have "k (h ! ((i - 1) div 2)) \<le> k (h ! i)"
    using i by (intro heap_holeD1 [OF assms]) simp_all
  then show "k (h[pos := v] ! ((i - 1) div 2)) \<le> k (h[pos := v] ! i)"
    using i(3,4) by simp
next
  fix c assume c: "0 < pos" "0 < c" "c < length (h[pos := v])" "(c - 1) div 2 = pos"
  have "(c - 1) div 2 < c" using c(2) by (rule parent_less)
  then have cp: "c \<noteq> pos" using c(4) by simp
  have "(pos - 1) div 2 < pos" using c(1) by (rule parent_less)
  then have pp: "(pos - 1) div 2 \<noteq> pos" by simp
  have "k (h ! ((pos - 1) div 2)) \<le> k (h ! c)"
    using c by (intro heap_holeD2 [OF assms]) simp_all
  then show "k (h[pos := v] ! ((pos - 1) div 2)) \<le> k (h[pos := v] ! c)"
    using cp pp by simp
qed

lemma heap_ok_hole_append:
  assumes "heap_ok k h"
  shows "heap_hole k (h @ [x]) (length h)"
proof (rule heap_holeI)
  fix i assume i: "0 < i" "i < length (h @ [x])" "i \<noteq> length h" "(i - 1) div 2 \<noteq> length h"
  then have il: "i < length h" by simp
  have "(i - 1) div 2 < i" using i(1) by (rule parent_less)
  then show "k ((h @ [x]) ! ((i - 1) div 2)) \<le> k ((h @ [x]) ! i)"
    using heap_okD [OF assms i(1) il] il by (simp add: nth_append)
next
  fix c assume c: "0 < c" "c < length (h @ [x])" "(c - 1) div 2 = length h"
  have "(c - 1) div 2 < c" using c(1) by (rule parent_less)
  then have False using c by simp
  then show "k ((h @ [x]) ! ((length h - 1) div 2)) \<le> k ((h @ [x]) ! c)" ..
qed

lemma heappush_heap:
  assumes "heap_ok k h"
  shows "heap_ok k (heappush (\<lambda>a b. k a < k b) h x)"
proof -
  have "heap_ok k (siftdown_loop (\<lambda>a b. k a < k b) (h @ [x]) 0 (length h) x)"
  proof (rule siftdown_loop_heap [OF _ heap_ok_hole_append [OF assms]])
    fix c assume c: "0 < c" "c < length (h @ [x])" "(c - 1) div 2 = length h"
    have "(c - 1) div 2 < c" using c(1) by (rule parent_less)
    then have False using c by simp
    then show "k x \<le> k ((h @ [x]) ! c)" ..
  qed simp
  then show ?thesis by (simp add: heappush_def siftdown_def)
qed

lemma mset_heappush: "mset (heappush lt h x) = add_mset x (mset h)"
  by (simp add: heappush_def siftdown_def mset_siftdown_loop)

lemma length_heappush: "length (heappush lt h x) = Suc (length h)"
  by (simp add: heappush_def siftdown_def length_siftdown_loop)

lemma heap_root_least:
  assumes "heap_ok k h"
  shows "i < length h \<Longrightarrow> k (h ! 0) \<le> k (h ! i)"
proof (induction i rule: less_induct)
  case (less i)
  show ?case
  proof (cases "i = 0")
    case True
    then show ?thesis by simp
  next
    case False
    then have i0: "0 < i" by simp
    have pi: "(i - 1) div 2 < i" using i0 by (rule parent_less)
    have "k (h ! 0) \<le> k (h ! ((i - 1) div 2))"
      using pi less.prems by (intro less.IH) simp_all
    also have "\<dots> \<le> k (h ! i)"
      using heap_okD [OF assms i0 less.prems] .
    finally show ?thesis .
  qed
qed


lemma child_cases: "0 < c \<Longrightarrow> (c - 1) div 2 = pos \<Longrightarrow> c = 2 * pos + 1 \<or> c = 2 * pos + (2::nat)"
  by arith

lemma heap_hole_down:
  assumes hole: "heap_hole k h pos" and pos: "pos < length h"
    and cs: "0 < cs" "cs < length h" "(cs - 1) div 2 = pos"
    and least: "\<And>c. 0 < c \<Longrightarrow> c < length h \<Longrightarrow> (c - 1) div 2 = pos \<Longrightarrow> k (h ! cs) \<le> k (h ! c)"
  shows "heap_hole k (h[pos := h ! cs]) cs"
proof (rule heap_holeI)
  let ?h' = "h[pos := h ! cs]"
  have pc: "pos < cs" using parent_less [OF cs(1)] cs(3) by simp
  fix i assume i: "0 < i" "i < length ?h'" "i \<noteq> cs" "(i - 1) div 2 \<noteq> cs"
  have il: "i < length h" using i(2) by simp
  have pi: "(i - 1) div 2 < i" using i(1) by (rule parent_less)
  show "k (?h' ! ((i - 1) div 2)) \<le> k (?h' ! i)"
  proof (cases "i = pos")
    case True
    have "k (h ! ((pos - 1) div 2)) \<le> k (h ! cs)"
      using i(1) True cs by (intro heap_holeD2 [OF hole]) simp_all
    then show ?thesis using True pi pos by simp
  next
    case ne: False
    show ?thesis
    proof (cases "(i - 1) div 2 = pos")
      case True
      then show ?thesis using least [OF i(1) il True] ne pos by simp
    next
      case False
      then show ?thesis using heap_holeD1 [OF hole i(1) il ne False] ne by simp
    qed
  qed
next
  let ?h' = "h[pos := h ! cs]"
  have pc: "pos < cs" using parent_less [OF cs(1)] cs(3) by simp
  fix c assume c: "0 < cs" "0 < c" "c < length ?h'" "(c - 1) div 2 = cs"
  have cc: "cs < c" using parent_less [OF c(2)] c(4) by simp
  have "k (h ! ((c - 1) div 2)) \<le> k (h ! c)"
    using c pc cc by (intro heap_holeD1 [OF hole]) simp_all
  then show "k (?h' ! ((cs - 1) div 2)) \<le> k (?h' ! c)"
    using c(4) cs(3) pc cc pos by simp
qed

lemma siftup_loop_props:
  assumes "heap_hole k h pos" and "pos < length h"
  shows "case siftup_loop (\<lambda>a b. k a < k b) h (length h) pos (2 * pos + 1) of
           (h', pos') \<Rightarrow> heap_hole k h' pos' \<and> pos' < length h' \<and> length h' = length h \<and>
              length h \<le> 2 * pos' + 1 \<and> (\<forall>x. mset (h'[pos' := x]) = mset (h[pos := x]))"
  using assms
proof (induction "length h - pos" arbitrary: h pos rule: less_induct)
  case less
  let ?n = "length h"
  let ?l = "2 * pos + 1"
  show ?case
  proof (cases "?l < ?n")
    case False
    then have "siftup_loop (\<lambda>a b. k a < k b) h ?n pos ?l = (h, pos)"
      by (subst siftup_loop.simps) simp
    then show ?thesis using less.prems False by simp
  next
    case True
    define cs where "cs = (if ?l + 1 < ?n \<and> \<not> k (h ! ?l) < k (h ! (?l + 1)) then ?l + 1 else ?l)"
    let ?h2 = "h[pos := h ! cs]"
    have cs: "0 < cs" "cs < ?n" "(cs - 1) div 2 = pos" "pos < cs"
      using True by (auto simp: cs_def)
    have least: "k (h ! cs) \<le> k (h ! c)" if c: "0 < c" "c < ?n" "(c - 1) div 2 = pos" for c
    proof -
      have "c = ?l \<or> c = ?l + 1" using child_cases [OF c(1,3)] by simp
      then show ?thesis using c(2) by (auto simp: cs_def)
    qed
    have hole2: "heap_hole k ?h2 cs"
      using less.prems cs(1,2,3) least by (rule heap_hole_down)
    have step: "siftup_loop (\<lambda>a b. k a < k b) h ?n pos ?l
        = siftup_loop (\<lambda>a b. k a < k b) ?h2 (length ?h2) cs (2 * cs + 1)"
      using True by (subst siftup_loop.simps) (simp add: Let_def cs_def)
    have IH: "case siftup_loop (\<lambda>a b. k a < k b) ?h2 (length ?h2) cs (2 * cs + 1) of
           (h', pos') \<Rightarrow> heap_hole k h' pos' \<and> pos' < length h' \<and> length h' = length ?h2 \<and>
              length ?h2 \<le> 2 * pos' + 1 \<and> (\<forall>x. mset (h'[pos' := x]) = mset (?h2[cs := x]))"
      using cs hole2 by (intro less.hyps) simp_all
    have shift: "mset (?h2[cs := x]) = mset (h[pos := x])" for x
      using cs less.prems(2) by (intro mset_update_shift) simp_all
    obtain h' pos' where r: "siftup_loop (\<lambda>a b. k a < k b) ?h2 (length ?h2) cs (2 * cs + 1) = (h', pos')"
      by (cases "siftup_loop (\<lambda>a b. k a < k b) ?h2 (length ?h2) cs (2 * cs + 1)") blast
    have props: "heap_hole k h' pos' \<and> pos' < length h' \<and> length h' = length ?h2 \<and>
        length ?h2 \<le> 2 * pos' + 1 \<and> (\<forall>x. mset (h'[pos' := x]) = mset (?h2[cs := x]))"
      using IH unfolding r by simp
    have "siftup_loop (\<lambda>a b. k a < k b) h ?n pos ?l = (h', pos')"
      using step r by (rule trans)
    then show ?thesis
      using props shift by simp
  qed
qed

lemma heap_ok_butlast:
  assumes "heap_ok k h"
  shows "heap_ok k (butlast h)"
proof (rule heap_okI)
  fix i assume i: "0 < i" "i < length (butlast h)"
  have pi: "(i - 1) div 2 < i" using i(1) by (rule parent_less)
  have "k (h ! ((i - 1) div 2)) \<le> k (h ! i)"
    using i by (intro heap_okD [OF assms]) simp_all
  then show "k (butlast h ! ((i - 1) div 2)) \<le> k (butlast h ! i)"
    using i pi by (simp add: nth_butlast)
qed

lemma heap_ok_hole0:
  assumes "heap_ok k h"
  shows "heap_hole k h 0"
proof (rule heap_holeI)
  fix i assume "0 < i" "i < length h"
  then show "k (h ! ((i - 1) div 2)) \<le> k (h ! i)"
    by (rule heap_okD [OF assms])
qed simp

lemma siftup0_props:
  assumes ok: "heap_ok k h" and ne: "h \<noteq> []"
  shows "heap_ok k (siftup (\<lambda>a b. k a < k b) (h[0 := x]) 0) \<and>
         mset (siftup (\<lambda>a b. k a < k b) (h[0 := x]) 0) = mset (h[0 := x])"
proof -
  let ?lt = "\<lambda>a b. k a < k b"
  let ?h0 = "h[0 := x]"
  obtain h' pos' where loop: "siftup_loop ?lt ?h0 (length ?h0) 0 (2 * 0 + 1) = (h', pos')"
    by (cases "siftup_loop ?lt ?h0 (length ?h0) 0 (2 * 0 + 1)") blast
  have hole0: "heap_hole k ?h0 0"
    using heap_ok_hole0 [OF ok] by (rule heap_hole_update)
  have len0: "0 < length ?h0" using ne by simp
  have props: "heap_hole k h' pos'" "pos' < length h'" "length h' = length ?h0"
      "length ?h0 \<le> 2 * pos' + 1" "\<And>y. mset (h'[pos' := y]) = mset (?h0[0 := y])"
    using siftup_loop_props [OF hole0 len0] loop by simp_all
  have x0: "?h0 ! 0 = x" using ne by simp
  have eq: "siftup ?lt ?h0 0 = siftdown_loop ?lt (h'[pos' := x]) 0 pos' x"
    using loop props(2) x0 by (simp add: siftup_def siftdown_def Let_def)
  have "heap_ok k (siftdown_loop ?lt (h'[pos' := x]) 0 pos' x)"
  proof (rule siftdown_loop_heap)
    show "pos' < length (h'[pos' := x])" using props(2) by simp
    show "heap_hole k (h'[pos' := x]) pos'" using props(1) by (rule heap_hole_update)
    fix c assume c: "0 < c" "c < length (h'[pos' := x])" "(c - 1) div 2 = pos'"
    have "c = 2 * pos' + 1 \<or> c = 2 * pos' + 2" using c(1,3) by (rule child_cases)
    then have False using c(2) props(3,4) by auto
    then show "k x \<le> k (h'[pos' := x] ! c)" ..
  qed
  moreover have "mset (siftdown_loop ?lt (h'[pos' := x]) 0 pos' x) = mset ?h0"
    using props(2) props(5) [of x] by (simp add: mset_siftdown_loop)
  ultimately show ?thesis by (simp add: eq)
qed

lemma heappop_props:
  assumes ok: "heap_ok k h" and ne: "h \<noteq> []"
  shows "\<exists>q. heappop (\<lambda>a b. k a < k b) h = Inr (h ! 0, q) \<and> heap_ok k q \<and>
             mset h = add_mset (h ! 0) (mset q)"
proof (cases "butlast h = []")
  case True
  then have h: "h = [last h]" using ne by (metis append_butlast_last_id append_Nil)
  then have "h ! 0 = last h" by (metis nth_Cons_0)
  then show ?thesis using True ne h
    by (simp add: heappop_def heap_ok_def Let_def)
next
  case False
  let ?b = "butlast h"
  let ?q = "siftup (\<lambda>a b. k a < k b) (?b[0 := last h]) 0"
  have bl: "0 < length ?b" using False by blast
  then have b0: "?b ! 0 = h ! 0" by (rule nth_butlast)
  have pop: "heappop (\<lambda>a b. k a < k b) h = Inr (h ! 0, ?q)"
    using False ne b0 by (simp add: heappop_def Let_def)
  have q: "heap_ok k ?q" "mset ?q = mset (?b[0 := last h])"
    using siftup0_props [OF heap_ok_butlast [OF ok] False] by simp_all
  have "mset h = add_mset (last h) (mset ?b)"
    using ne by (metis append_butlast_last_id mset_append add_mset_add_single mset.simps union_mset_add_mset_right add.right_neutral)
  moreover have "mset (?b[0 := last h]) = add_mset (last h) (mset ?b - {#?b ! 0#})"
    using bl by (rule mset_update)
  moreover have "?b ! 0 \<in># mset ?b" using bl by (simp only: set_mset_mset nth_mem)
  ultimately have "mset h = add_mset (h ! 0) (mset ?q)"
    using q(2) b0 by simp
  then show ?thesis using pop q(1) by blast
qed

section \<open>URL frontier: properties\<close>

lemma heappush_not_Nil: "heappush lt h x \<noteq> []"
  using length_heappush [of lt h x] by (metis length_0_conv nat.distinct(1))

lemma entry_lt_key: "entry_lt = (\<lambda>a b. priority a < priority b)"
  by (intro ext) (simp add: entry_lt_def)

lemma set_heappush: "set (heappush lt h x) = insert x (set h)"
proof -
  have "set_mset (mset (heappush lt h x)) = set_mset (add_mset x (mset h))"
    by (simp only: mset_heappush)
  then show ?thesis by simp
qed

lemma add_result:
  "add f u d p parent md now =
     (if url_hash u \<in> seen_urls f
      then (False, f\<lparr>total_duplicates_skipped := total_duplicates_skipped f + 1\<rparr>)
      else if d > max_depth f \<or> int (length (queue f)) \<ge> max_urls f then (False, f)
      else (True, f\<lparr>seen_urls := insert (url_hash u) (seen_urls f),
                  queue := heappush entry_lt (queue f)
                    \<lparr>priority = priority_value p, depth = d, url = u, parent_url = parent,
                     discovered_at = now, retry_count = 0,
                     metadata = (case md of None \<Rightarrow> [] | Some m \<Rightarrow> m)\<rparr>,
                  total_added := total_added f + 1, not_empty := True\<rparr>))"
  by (simp add: add_def Let_def)

lemma frontier_inv_init: "frontier_inv (frontier_init md mu)"
  by (simp add: frontier_inv_def frontier_init_def heap_ok_def)

lemma frontier_inv_add:
  assumes "frontier_inv f"
  shows "frontier_inv (snd (add f u d p parent md now))"
proof -
  have "heap_ok priority (heappush entry_lt (queue f) e)" for e
    unfolding entry_lt_key using assms by (intro heappush_heap) (simp add: frontier_inv_def)
  then show ?thesis
    using assms by (simp add: add_result frontier_inv_def set_heappush length_heappush heappush_not_Nil)
qed

lemma get_cases:
  obtains
    (unset) "\<not> not_empty f" "get f = Inr (None, f)"
  | (empty) "not_empty f" "queue f = []" "get f = Inr (None, f\<lparr>not_empty := False\<rparr>)"
  | (pop) e q where "not_empty f" "queue f \<noteq> []" "heappop entry_lt (queue f) = Inr (e, q)"
      "get f = Inr (Some e, f\<lparr>queue := q, not_empty := (q \<noteq> [])\<rparr>)"
proof (cases "not_empty f")
  case False
  then show ?thesis using unset by (simp add: get_def)
next
  case ne: True
  show ?thesis
  proof (cases "queue f = []")
    case True
    then show ?thesis using ne empty by (simp add: get_def)
  next
    case False
    then obtain e q where "heappop entry_lt (queue f) = Inr (e, q)"
      by (cases "butlast (queue f) = []") (simp_all add: heappop_def Let_def)
    then show ?thesis using ne False pop by (simp add: get_def)
  qed
qed

lemma get_never_raises: "get f \<noteq> Inl err"
  by (cases f rule: get_cases) simp_all

lemma get_Some:
  assumes "frontier_inv f" and "get f = Inr (Some e, f')"
  obtains q where "queue f \<noteq> []" "e = queue f ! 0" "heap_ok priority q"
    "mset (queue f) = add_mset e (mset q)" "f' = f\<lparr>queue := q, not_empty := (q \<noteq> [])\<rparr>"
proof (cases f rule: get_cases)
  case unset
  then show ?thesis using assms(2) by simp
next
  case empty
  then show ?thesis using assms(2) by simp
next
  case (pop e0 q)
  have ok: "heap_ok priority (queue f)" using assms(1) by (simp add: frontier_inv_def)
  obtain q' where q': "heappop (\<lambda>a b. priority a < priority b) (queue f) = Inr (queue f ! 0, q')"
      "heap_ok priority q'" "mset (queue f) = add_mset (queue f ! 0) (mset q')"
    using heappop_props [OF ok pop(2)] by blast
  have "e0 = queue f ! 0" "q = q'"
    using pop(3) q'(1) by (simp_all add: entry_lt_key)
  moreover have "e = e0" "f' = f\<lparr>queue := q, not_empty := (q \<noteq> [])\<rparr>"
    using pop(4) assms(2) by simp_all
  ultimately show ?thesis using q' pop(2) that by simp
qed

lemma frontier_inv_get:
  assumes "frontier_inv f" and "get f = Inr (r, f')"
  shows "frontier_inv f'"
proof (cases r)
  case None
  show ?thesis
  proof (cases f rule: get_cases)
    case unset
    then have "f' = f" using assms(2) by simp
    then show ?thesis using assms(1) by simp
  next
    case empty
    then have "f' = f\<lparr>not_empty := False\<rparr>" using assms(2) by simp
    then show ?thesis using assms(1) empty(2) by (simp add: frontier_inv_def)
  next
    case (pop e q)
    then show ?thesis using assms(2) None by simp
  qed
next
  case (Some e)
  obtain q where g: "heap_ok priority q" "mset (queue f) = add_mset e (mset q)"
      "f' = f\<lparr>queue := q, not_empty := (q \<noteq> [])\<rparr>"
    using get_Some [OF assms(1)] assms(2) Some by blast
  have sub: "set q \<subseteq> set (queue f)"
    using g(2) by (metis set_mset_mset set_mset_add_mset_insert subset_insertI)
  have len: "length (queue f) = Suc (length q)"
    using g(2) by (metis size_mset size_add_mset)
  have inv: "\<forall>e\<in>set (queue f). url_hash (url e) \<in> seen_urls f"
      "\<forall>e\<in>set (queue f). depth e \<le> max_depth f"
      "0 \<le> max_urls f \<longrightarrow> int (length (queue f)) \<le> max_urls f"
    using assms(1) by (simp_all add: frontier_inv_def)
  have "\<forall>e\<in>set q. url_hash (url e) \<in> seen_urls f"
    using inv(1) sub by (simp add: subset_iff)
  moreover have "\<forall>e\<in>set q. depth e \<le> max_depth f"
    using inv(2) sub by (simp add: subset_iff)
  moreover have "0 \<le> max_urls f \<longrightarrow> int (length q) \<le> max_urls f"
    using inv(3) len by linarith
  ultimately show ?thesis
    using g(1) by (simp add: frontier_inv_def g(3))
qed

lemma frontier_inv_mark_crawled: "frontier_inv f \<Longrightarrow> frontier_inv (mark_crawled f u)"
  by (simp add: frontier_inv_def mark_crawled_def)

lemma frontier_inv_mark_failed: "frontier_inv f \<Longrightarrow> frontier_inv (snd (mark_failed f u n))"
  by (simp add: frontier_inv_def mark_failed_def Let_def)

lemma reachable_inv: "reachable f \<Longrightarrow> frontier_inv f"
proof (induction rule: reachable.induct)
  case (reachable_init md mu)
  show ?case by (rule frontier_inv_init)
next
  case (reachable_add f u d p parent m now)
  from reachable_add.IH show ?case by (rule frontier_inv_add)
next
  case (reachable_get f r f')
  from reachable_get.IH reachable_get.hyps(2) show ?case by (rule frontier_inv_get)
next
  case (reachable_mark_crawled f u)
  from reachable_mark_crawled.IH show ?case by (rule frontier_inv_mark_crawled)
next
  case (reachable_mark_failed f u n)
  from reachable_mark_failed.IH show ?case by (rule frontier_inv_mark_failed)
qed


lemma get_nonempty:
  assumes "frontier_inv f" and "queue f \<noteq> []"
  obtains e f' where "get f = Inr (Some e, f')"
proof (cases f rule: get_cases)
  case unset
  then show ?thesis using assms by (simp add: frontier_inv_def)
next
  case empty
  then show ?thesis using assms by simp
next
  case (pop e q)
  then show ?thesis using that by blast
qed

text \<open>The MD5 hashes of the URLs of the concrete frontiers.\<close>

lemma url_hash_a: "url_hash ''http://a.test/a'' = ''638a026591b8d496b37156ed1f497be3''"
  by code_simp

lemma url_hash_b: "url_hash ''http://a.test/b'' = ''3b59640ad449ffaef695c6181e25f6b7''"
  by code_simp

lemma url_hash_c: "url_hash ''http://a.test/c'' = ''43b5fb96e7f63a866c5ec790b89002cf''"
  by code_simp

lemma url_hash_d: "url_hash ''http://a.test/d'' = ''39c4741aecd5ff2bfea57e931eeb076b''"
  by code_simp

lemmas heap_eval = heappush_def heappop_def siftdown_def siftup_def siftdown_loop.simps
  siftup_loop.simps entry_lt_def Let_def

lemma four_added_eq:
  "four_added =
     \<lparr>max_depth = 3, max_urls = 1000, queue = [entry_a, entry_b, entry_c, entry_d],
      seen_urls = {url_hash ''http://a.test/d'', url_hash ''http://a.test/c'',
                   url_hash ''http://a.test/b'', url_hash ''http://a.test/a''},
      crawled_urls = {}, failed_urls = Map.empty, not_empty = True, total_added = 4,
      total_duplicates_skipped = 0\<rparr>"
  by (simp add: four_added_def add_def frontier_init_def heap_eval
      entry_a_def entry_b_def entry_c_def entry_d_def url_hash_a url_hash_b url_hash_c url_hash_d)

lemma get_four_added:
  "get four_added = Inr (Some entry_a, four_added\<lparr>queue := [entry_c, entry_b, entry_d]\<rparr>)"
  by (simp add: four_added_eq get_def heap_eval entry_a_def entry_b_def entry_c_def entry_d_def)

lemma get_three_left:
  "get (four_added\<lparr>queue := [entry_c, entry_b, entry_d]\<rparr>)
     = Inr (Some entry_c, four_added\<lparr>queue := [entry_b, entry_d]\<rparr>)"
  by (simp add: four_added_eq get_def heap_eval entry_a_def entry_b_def entry_c_def entry_d_def)


lemma seed_added_eq: "seed_added = seed_popped\<lparr>queue := [seed_entry], not_empty := True\<rparr>"
  by (simp add: seed_added_def seed_popped_def seed_entry_def add_def frontier_init_def heap_eval)

lemma get_seed_added: "get seed_added = Inr (Some seed_entry, seed_popped)"
  by (simp add: seed_added_eq seed_popped_def get_def heap_eval)

lemma reachable_four_added: "reachable four_added"
  unfolding four_added_def by (intro reachable.intros)

lemma reachable_seed_added: "reachable seed_added"
  unfolding seed_added_def by (intro reachable.intros)

text \<open>
  C3 (as amended). In every state that the operations of the frontier produce, get on a
  non-empty queue returns an entry of the queue whose priority is minimal among the
  entries queued, and takes exactly this entry out. Depth and discovery time take no
  part in the order, and nothing is promised between entries of equal priority.
\<close>

theorem get_returns_least_priority:
  assumes "reachable f" and "queue f \<noteq> []"
  shows "\<exists>e f'. get f = Inr (Some e, f') \<and> e \<in> set (queue f) \<and>
           (\<forall>e'\<in>set (queue f). priority e \<le> priority e') \<and>
           mset (queue f) = add_mset e (mset (queue f'))"
proof -
  have inv: "frontier_inv f" using assms(1) by (rule reachable_inv)
  obtain e f' where g: "get f = Inr (Some e, f')"
    using inv assms(2) by (rule get_nonempty)
  obtain q where q: "e = queue f ! 0" "mset (queue f) = add_mset e (mset q)"
      "f' = f\<lparr>queue := q, not_empty := (q \<noteq> [])\<rparr>"
    using get_Some [OF inv g] by blast
  have ok: "heap_ok priority (queue f)" using inv by (simp add: frontier_inv_def)
  have least: "\<forall>e'\<in>set (queue f). priority e \<le> priority e'"
    unfolding q(1) using heap_root_least [OF ok] by (auto simp: in_set_conv_nth)
  have mem: "e \<in> set (queue f)" using q(1) assms(2) by simp
  have "queue f' = q" by (simp add: q(3))
  then show ?thesis using g mem least q(2) by blast
qed


theorem get_returns_least_priority_witness:
  "reachable four_added \<and> queue four_added \<noteq> [] \<and>
   get four_added = Inr (Some entry_a, four_added\<lparr>queue := [entry_c, entry_b, entry_d]\<rparr>) \<and>
   priority entry_a \<le> priority entry_b \<and> priority entry_a \<le> priority entry_c \<and>
   priority entry_a \<le> priority entry_d"
proof -
  have ne: "queue four_added \<noteq> []" by (simp add: four_added_eq)
  show ?thesis
    using get_returns_least_priority [OF reachable_four_added ne] reachable_four_added ne
    by (simp add: get_four_added entry_a_def entry_b_def entry_c_def entry_d_def)
qed

text \<open>
  C3 as stated fails. Four URLs are added at NORMAL priority and at the same time, the
  first three at depth 2, the fourth at depth 1. The first get returns the first
  entry, although the fourth is smaller in (priority, depth, discovery time); the
  second get returns the third entry before the second, which has the same triple and
  was added earlier.
\<close>

theorem frontier_order_counterexample:
  "queue four_added = [entry_a, entry_b, entry_c, entry_d] \<and>
   get four_added = Inr (Some entry_a, four_added\<lparr>queue := [entry_c, entry_b, entry_d]\<rparr>) \<and>
   spec_tuple_less entry_d entry_a \<and>
   get (four_added\<lparr>queue := [entry_c, entry_b, entry_d]\<rparr>)
     = Inr (Some entry_c, four_added\<lparr>queue := [entry_b, entry_d]\<rparr>) \<and>
   \<not> spec_tuple_less entry_c entry_b \<and> \<not> spec_tuple_less entry_b entry_c"
  by (simp add: get_four_added get_three_left)
     (simp add: four_added_eq spec_tuple_less_def entry_a_def entry_b_def entry_c_def entry_d_def)

text \<open>
  C6. add returns True exactly when the hash of the URL is not in the seen set, the
  depth is at most max\_depth and the queue is shorter than max\_urls. When it returns
  True the hash has been inserted into the seen set and the new entry into the queue;
  when it returns False the seen set and the queue are as before. Hence, in every
  state that the operations produce, every queued URL has its hash in the seen set
  and, for a max\_urls that is not negative, the queue is no longer than max\_urls (so
  that "at least max\_urls" in the test of add is "equal to max\_urls").
\<close>

theorem add_admission:
  "(fst (add f u d p parent md now) \<longleftrightarrow>
      \<not> (url_hash u \<in> seen_urls f \<or> d > max_depth f \<or> int (length (queue f)) \<ge> max_urls f)) \<and>
   (if fst (add f u d p parent md now)
    then seen_urls (snd (add f u d p parent md now)) = insert (url_hash u) (seen_urls f) \<and>
         mset (queue (snd (add f u d p parent md now))) =
           add_mset \<lparr>priority = priority_value p, depth = d, url = u, parent_url = parent,
                     discovered_at = now, retry_count = 0,
                     metadata = (case md of None \<Rightarrow> [] | Some m \<Rightarrow> m)\<rparr> (mset (queue f))
    else seen_urls (snd (add f u d p parent md now)) = seen_urls f \<and>
         queue (snd (add f u d p parent md now)) = queue f) \<and>
   (reachable f \<longrightarrow>
      (\<forall>e\<in>set (queue f). url_hash (url e) \<in> seen_urls f) \<and>
      (0 \<le> max_urls f \<longrightarrow> int (length (queue f)) \<le> max_urls f \<and>
         (int (length (queue f)) \<ge> max_urls f \<longleftrightarrow> int (length (queue f)) = max_urls f)))"
proof (intro conjI impI)
  show "fst (add f u d p parent md now) \<longleftrightarrow>
      \<not> (url_hash u \<in> seen_urls f \<or> d > max_depth f \<or> int (length (queue f)) \<ge> max_urls f)"
    by (simp add: add_result)
  show "if fst (add f u d p parent md now)
    then seen_urls (snd (add f u d p parent md now)) = insert (url_hash u) (seen_urls f) \<and>
         mset (queue (snd (add f u d p parent md now))) =
           add_mset \<lparr>priority = priority_value p, depth = d, url = u, parent_url = parent,
                     discovered_at = now, retry_count = 0,
                     metadata = (case md of None \<Rightarrow> [] | Some m \<Rightarrow> m)\<rparr> (mset (queue f))
    else seen_urls (snd (add f u d p parent md now)) = seen_urls f \<and>
         queue (snd (add f u d p parent md now)) = queue f"
    by (simp add: add_result mset_heappush)
next
  assume "reachable f"
  then have inv: "frontier_inv f" by (rule reachable_inv)
  show "\<forall>e\<in>set (queue f). url_hash (url e) \<in> seen_urls f"
    using inv by (simp add: frontier_inv_def)
  assume "0 \<le> max_urls f"
  then show le: "int (length (queue f)) \<le> max_urls f"
    using inv by (simp add: frontier_inv_def)
  then show "(int (length (queue f)) \<ge> max_urls f \<longleftrightarrow> int (length (queue f)) = max_urls f)"
    by linarith
qed


theorem add_admission_witness:
  "fst (add (frontier_init 3 1000) ''http://a.test/'' 0 CRITICAL [] None 0) \<and>
   seen_urls seed_added = {url_hash ''http://a.test/''} \<and>
   queue seed_added = [seed_entry] \<and>
   \<not> fst (add seed_added ''http://a.test/'' 0 CRITICAL [] None 1) \<and>
   queue (snd (add seed_added ''http://a.test/'' 0 CRITICAL [] None 1)) = [seed_entry] \<and>
   reachable seed_added \<and> 0 \<le> max_urls seed_added \<and>
   url_hash (url seed_entry) \<in> seen_urls seed_added \<and>
   int (length (queue seed_added)) \<le> max_urls seed_added"
  using add_admission [of "frontier_init 3 1000" "''http://a.test/''" 0 CRITICAL "[]" None 0]
    add_admission [of seed_added "''http://a.test/''" 0 CRITICAL "[]" None 1]
    reachable_seed_added
  by (simp add: seed_added_eq seed_popped_def seed_entry_def add_def frontier_init_def heap_eval)

text \<open>
  C10. When add rejects a URL whose hash is not in the seen set, because of its depth
  or because the queue is full, it returns the frontier as it was: the hash is not
  added to the seen set and duplicates\_skipped does not change (it grows by one exactly
  when the hash was already seen). get does not touch the seen set either. So, in any
  later state where the hash is still unseen, an add of the URL with a depth within
  the limit and room in the queue returns True.
\<close>

theorem add_rejection_leaves_state:
  "(url_hash u \<notin> seen_urls f \<and> (d > max_depth f \<or> int (length (queue f)) \<ge> max_urls f) \<longrightarrow>
      add f u d p parent md now = (False, f)) \<and>
   total_duplicates_skipped (snd (add f u d p parent md now)) =
      total_duplicates_skipped f + (if url_hash u \<in> seen_urls f then 1 else 0) \<and>
   (url_hash u \<notin> seen_urls g \<and> d' \<le> max_depth g \<and> int (length (queue g)) < max_urls g \<longrightarrow>
      fst (add g u d' p' parent' md' now')) \<and>
   (get g = Inr (r, g') \<longrightarrow> seen_urls g' = seen_urls g)"
proof (intro conjI impI)
  assume "get g = Inr (r, g')"
  then show "seen_urls g' = seen_urls g"
    by (cases g rule: get_cases) auto
qed (simp_all add: add_result)


theorem add_rejection_leaves_state_witness:
  "url_hash ''http://a.test/'' \<notin> seen_urls (frontier_init 3 1000) \<and>
   5 > max_depth (frontier_init 3 1000) \<and>
   add (frontier_init 3 1000) ''http://a.test/'' 5 NORMAL [] None 0 = (False, frontier_init 3 1000) \<and>
   get (frontier_init 3 1000) = Inr (None, frontier_init 3 1000) \<and>
   1 \<le> max_depth (frontier_init 3 1000) \<and>
   int (length (queue (frontier_init 3 1000))) < max_urls (frontier_init 3 1000) \<and>
   fst (add (frontier_init 3 1000) ''http://a.test/'' 1 NORMAL [] None 1)"
  using add_rejection_leaves_state [of "''http://a.test/''" "frontier_init 3 1000" 5 NORMAL "[]" None 0
      "frontier_init 3 1000" 1 NORMAL "[]" None 1 None "frontier_init 3 1000"]
  by (simp add: frontier_init_def get_def)

lemma add_seen_rejected:
  "url_hash u \<in> seen_urls f \<Longrightarrow>
     \<not> fst (add f u d p parent md now) \<and> queue (snd (add f u d p parent md now)) = queue f"
  by (simp add: add_result)

lemma popped_entry_seen:
  assumes "reachable f" and "get f = Inr (Some e, f')"
  shows "url_hash (url e) \<in> seen_urls f'"
proof -
  have inv: "frontier_inv f" using assms(1) by (rule reachable_inv)
  obtain q where q: "queue f \<noteq> []" "e = queue f ! 0" "f' = f\<lparr>queue := q, not_empty := (q \<noteq> [])\<rparr>"
    using get_Some [OF inv assms(2)] by blast
  have "e \<in> set (queue f)" using q(1,2) by simp
  then have "url_hash (url e) \<in> seen_urls f" using inv by (simp add: frontier_inv_def)
  then show ?thesis by (simp add: q(3))
qed

lemma mark_failed_seen: "seen_urls (snd (mark_failed f u n)) = seen_urls f"
  by (simp add: mark_failed_def Let_def)

lemma mark_failed_queue: "queue (snd (mark_failed f u n)) = queue f"
  by (simp add: mark_failed_def Let_def)

text \<open>
  Whatever was popped in a state produced by the operations, the retry of the worker
  adds nothing: the queue after the except block is the queue before it.
\<close>

lemma retry_leaves_queue:
  assumes "reachable f" and "get f = Inr (Some e, f')"
  shows "queue (frontier (handle_entry (eng\<lparr>frontier := f'\<rparr>) e CrawlRaises clock)) = queue f'"
proof -
  obtain b f1 where mf: "mark_failed f' (url e) 3 = (b, f1)"
    by (cases "mark_failed f' (url e) 3") blast
  have f1: "seen_urls f1 = seen_urls f'" "queue f1 = queue f'"
    using mark_failed_seen [of f' "url e" 3] mark_failed_queue [of f' "url e" 3] mf by simp_all
  have seen: "url_hash (url e) \<in> seen_urls f1"
    using popped_entry_seen [OF assms] f1(1) by simp
  show ?thesis
    using add_seen_rejected [OF seen] f1(2) mf
    by (simp add: handle_entry_def Let_def)
qed

text \<open>
  C1: the behaviour of the code where the claim fails. The seed is added and popped,
  its handler raises. mark\_failed returns True (one failure, fewer than 3), and the
  add of the retry returns False, because the hash of the URL has been in the seen
  set since its first add: the turn of the worker ends with an empty queue, one
  failure recorded and one duplicate counted.
\<close>

theorem retry_add_is_rejected:
  "get seed_added = Inr (Some seed_entry, seed_popped) \<and>
   fst (mark_failed seed_popped (url seed_entry) 3) \<and>
   \<not> fst (add (snd (mark_failed seed_popped (url seed_entry) 3)) (url seed_entry)
            (depth seed_entry) LOW [] None 1) \<and>
   worker_step (engine_of seed_added) CrawlRaises (\<lambda>n. 1) =
     Inr (Continue,
          \<lparr>frontier = seed_popped\<lparr>failed_urls := [url_hash ''http://a.test/'' \<mapsto> 1],
                                   total_duplicates_skipped := 1\<rparr>,
           follow_external_links = False, pages_crawled = 0, pages_failed = 1\<rparr>)"
  by (simp add: get_seed_added worker_step_def engine_of_def handle_entry_def)
     (simp add: seed_popped_def seed_entry_def mark_failed_def failed_count_def add_def Let_def)

section \<open>Worker: properties\<close>

lemma add_keeps_marks:
  "crawled_urls (snd (add f u d p parent md now)) = crawled_urls f \<and>
   failed_urls (snd (add f u d p parent md now)) = failed_urls f"
  by (simp add: add_result)

lemma add_links_keeps_marks:
  "crawled_urls (add_links f links d p parent clock n) = crawled_urls f \<and>
   failed_urls (add_links f links d p parent clock n) = failed_urls f"
  by (induction links arbitrary: f n) (simp_all add: add_keeps_marks)

lemma process_links_keeps_marks:
  "crawled_urls (frontier (process_links eng page parent d clock)) = crawled_urls (frontier eng) \<and>
   failed_urls (frontier (process_links eng page parent d clock)) = failed_urls (frontier eng)"
  by (simp add: process_links_def Let_def add_links_keeps_marks)

text \<open>
  C2 (as amended). What the worker records in the frontier for a popped entry depends
  on the outcome of the handler. A page: the hash of the URL is in the crawled set and
  the failure counts are as before. None, without an exception: nothing, the frontier
  is left as it was and only the statistic pages\_failed grows. An exception: the
  failure count of the URL grows by one (terminal once it reaches 3) and the crawled
  set is as before.
\<close>

theorem handle_entry_dispositions:
  "url_hash (url entry) \<in> crawled_urls (frontier (handle_entry eng entry (CrawlPage page) clock)) \<and>
   failed_urls (frontier (handle_entry eng entry (CrawlPage page) clock)) = failed_urls (frontier eng) \<and>
   frontier (handle_entry eng entry CrawlNone clock) = frontier eng \<and>
   pages_failed (handle_entry eng entry CrawlNone clock) = pages_failed eng + 1 \<and>
   failed_count (frontier (handle_entry eng entry CrawlRaises clock)) (url_hash (url entry))
     = failed_count (frontier eng) (url_hash (url entry)) + 1 \<and>
   crawled_urls (frontier (handle_entry eng entry CrawlRaises clock)) = crawled_urls (frontier eng)"
proof (intro conjI)
  show "url_hash (url entry) \<in> crawled_urls (frontier (handle_entry eng entry (CrawlPage page) clock))"
    by (simp add: handle_entry_def Let_def process_links_keeps_marks mark_crawled_def)
  show "failed_urls (frontier (handle_entry eng entry (CrawlPage page) clock)) = failed_urls (frontier eng)"
    by (simp add: handle_entry_def Let_def process_links_keeps_marks mark_crawled_def)
  show "frontier (handle_entry eng entry CrawlNone clock) = frontier eng"
    by (simp add: handle_entry_def Let_def)
  show "pages_failed (handle_entry eng entry CrawlNone clock) = pages_failed eng + 1"
    by (simp add: handle_entry_def Let_def)
  show "failed_count (frontier (handle_entry eng entry CrawlRaises clock)) (url_hash (url entry))
     = failed_count (frontier eng) (url_hash (url entry)) + 1"
    by (simp add: handle_entry_def Let_def mark_failed_def failed_count_def add_keeps_marks)
  show "crawled_urls (frontier (handle_entry eng entry CrawlRaises clock)) = crawled_urls (frontier eng)"
    by (simp add: handle_entry_def Let_def mark_failed_def add_keeps_marks)
qed

text \<open>
  C2 as stated fails on a non-success fetch. The seed is added and popped, and its
  handler returns None: after the turn of the worker the URL is not in the crawled
  set, has no failure recorded (so it is not terminal-failed) and is not in the
  queue. None of the three dispositions is recorded.
\<close>

theorem no_disposition_counterexample:
  "worker_step (engine_of seed_added) CrawlNone (\<lambda>n. 1) =
     Inr (Continue, (engine_of seed_popped)\<lparr>pages_failed := 1\<rparr>) \<and>
   url_hash ''http://a.test/'' \<notin> crawled_urls seed_popped \<and>
   failed_urls seed_popped (url_hash ''http://a.test/'') = None \<and>
   failed_count seed_popped (url_hash ''http://a.test/'') = 0 \<and>
   queue seed_popped = []"
  by (simp add: get_seed_added worker_step_def engine_of_def handle_entry_def)
     (simp add: seed_popped_def failed_count_def)

section \<open>SimHash similarity: properties\<close>

lemma popcount_0 [simp]: "popcount 0 = 0"
  by (simp add: popcount.simps)

lemma popcount_double: "popcount (2 * m) = popcount m"
  by (subst popcount.simps) simp

lemma popcount_double1: "popcount (Suc (2 * m)) = Suc (popcount m)"
  by (subst popcount.simps) simp

lemma clear_lowest:
  "0 < n \<Longrightarrow> n AND (n - 1) < n \<and> Suc (popcount (n AND (n - 1))) = popcount (n::nat)"
proof (induction n rule: less_induct)
  case (less n)
  show ?case
  proof (cases "even n")
    case False
    then obtain m where n: "n = 2 * m + 1" by (auto elim: oddE)
    have "n AND (n - 1) = 2 * m"
      unfolding n by (subst and_nat_rec) simp
    then show ?thesis using n by (simp add: popcount_double popcount_double1)
  next
    case True
    then obtain m where n: "n = 2 * m" by (auto elim: evenE)
    have m0: "0 < m" using less.prems n by simp
    have "(2 * m - 1) div 2 = m - 1" using m0 by arith
    then have a: "n AND (n - 1) = 2 * (m AND (m - 1))"
      unfolding n by (subst and_nat_rec) simp
    have "m < n" using m0 n by simp
    then have IH: "m AND (m - 1) < m \<and> Suc (popcount (m AND (m - 1))) = popcount m"
      using m0 by (rule less.IH)
    have "n AND (n - 1) < n"
      unfolding a using IH n by simp
    moreover have "Suc (popcount (n AND (n - 1))) = popcount n"
      unfolding a popcount_double using IH n by (simp add: popcount_double)
    ultimately show ?thesis by simp
  qed
qed

lemma hamming_loop_nat:
  "hamming_loop (int n) d = Some (d + int (popcount n))"
proof (induction n arbitrary: d rule: less_induct)
  case (less n)
  show ?case
  proof (cases "n = 0")
    case True
    then show ?thesis by (subst hamming_loop.simps) simp
  next
    case False
    then have n0: "0 < n" by simp
    have cl: "n AND (n - 1) < n" "Suc (popcount (n AND (n - 1))) = popcount n"
      using clear_lowest [OF n0] by simp_all
    have "int n AND (int n - 1) = int (n AND (n - 1))"
      using n0 by (simp add: of_nat_and_eq of_nat_diff)
    then have "hamming_loop (int n) d = hamming_loop (int (n AND (n - 1))) (d + 1)"
      using False by (subst hamming_loop.simps) simp
    also have "\<dots> = Some (d + 1 + int (popcount (n AND (n - 1))))"
      using cl(1) by (rule less.IH)
    also have "\<dots> = Some (d + int (popcount n))"
      using cl(2) by (metis add.assoc of_nat_Suc add.commute)
    finally show ?thesis .
  qed
qed

lemma popcount_bound: "n < 2 ^ k \<Longrightarrow> popcount n \<le> k"
proof (induction k arbitrary: n)
  case 0
  then show ?case by simp
next
  case (Suc k)
  have "n div 2 < 2 ^ k" using Suc.prems by auto
  then have "popcount (n div 2) \<le> k" by (rule Suc.IH)
  then show ?case by (subst popcount.simps) (auto simp: mod_2_eq_odd)
qed

lemma finite_bit_nat: "finite {i. bit (n::nat) i}"
proof (rule finite_subset)
  show "{i. bit n i} \<subseteq> {..n}"
  proof
    fix i assume "i \<in> {i. bit n i}"
    then have "odd (n div 2 ^ i)" by (simp add: bit_iff_odd)
    then have "2 ^ i \<le> n" by (cases "n < 2 ^ i") simp_all
    moreover have "i < (2::nat) ^ i" by (rule less_exp)
    ultimately have "i \<le> n" by linarith
    then show "i \<in> {..n}" by simp
  qed
qed simp

lemma popcount_card: "popcount n = card {i. bit n i}"
proof (induction n rule: less_induct)
  case (less n)
  show ?case
  proof (cases "n = 0")
    case True
    then show ?thesis by simp
  next
    case False
    have IH: "popcount (n div 2) = card {i. bit (n div 2) i}"
      using False by (intro less.IH) simp
    have split: "{i. bit n i} = (if odd n then {0} else {}) \<union> Suc ` {i. bit (n div 2) i}"
    proof (intro set_eqI)
      fix i show "i \<in> {i. bit n i} \<longleftrightarrow> i \<in> (if odd n then {0} else {}) \<union> Suc ` {i. bit (n div 2) i}"
        by (cases i) (auto simp: bit_0 bit_Suc)
    qed
    have fin: "finite {i. bit (n div 2) i}"
      by (rule finite_bit_nat)
    have "card {i. bit n i} = (if odd n then 1 else 0) + card (Suc ` {i. bit (n div 2) i})"
      unfolding split using fin by (subst card_Un_disjoint) auto
    also have "card (Suc ` {i. bit (n div 2) i}) = card {i. bit (n div 2) i}"
      by (intro card_image) simp
    finally show ?thesis
      using False IH by (subst popcount.simps) (simp add: mod_2_eq_odd)
  qed
qed


lemma hamming_distance_popcount:
  assumes "0 \<le> h1" and "0 \<le> h2"
  shows "hamming_distance h1 h2 = Some (int (popcount (nat (h1 XOR h2))))"
proof -
  define n where "n = nat (h1 XOR h2)"
  have "0 \<le> h1 XOR h2" using assms by simp
  then have x: "h1 XOR h2 = int n" by (simp add: n_def)
  show ?thesis
    unfolding hamming_distance_def x by (simp add: hamming_loop_nat)
qed

lemma popcount_six: "popcount 6 = 2"
  by code_simp

text \<open>
  C9. For hashes h, h1, h2 in [0, 2^64) and 64 hash bits, similarity returns (the loop of
  hamming\_distance ends and the division is defined): its value is
  1 - popcount (h1 XOR h2) / 64, it is 1 on equal hashes, it is symmetric, and it is
  not negative.
\<close>

theorem similarity_popcount:
  assumes "0 \<le> h1" and "h1 < 2 ^ 64" and "0 \<le> h2" and "h2 < 2 ^ 64"
  shows "similarity 64 h1 h2 = Some (Inr (1 - real (popcount (nat (h1 XOR h2))) / 64)) \<and>
         similarity 64 h1 h1 = Some (Inr 1) \<and>
         similarity 64 h1 h2 = similarity 64 h2 h1 \<and>
         0 \<le> 1 - real (popcount (nat (h1 XOR h2))) / 64"
proof (intro conjI)
  show "similarity 64 h1 h2 = Some (Inr (1 - real (popcount (nat (h1 XOR h2))) / 64))"
    using assms by (simp add: similarity_def hamming_distance_popcount)
  show "similarity 64 h1 h1 = Some (Inr 1)"
    using assms by (simp add: similarity_def hamming_distance_popcount)
  show "similarity 64 h1 h2 = similarity 64 h2 h1"
    by (simp add: similarity_def hamming_distance_def xor.commute)
  have "0 \<le> h1 XOR h2" using assms by simp
  moreover have "h1 XOR h2 < 2 ^ 64" using assms by (intro XOR_upper)
  ultimately have "nat (h1 XOR h2) < 2 ^ 64"
    by (simp add: nat_less_iff)
  then have "popcount (nat (h1 XOR h2)) \<le> 64" by (rule popcount_bound)
  then show "0 \<le> 1 - real (popcount (nat (h1 XOR h2))) / 64" by simp
qed

theorem similarity_popcount_witness:
  "(0::int) \<le> 5 \<and> (5::int) < 2 ^ 64 \<and> (0::int) \<le> 3 \<and> (3::int) < 2 ^ 64 \<and>
   similarity 64 5 3 = Some (Inr (31 / 32)) \<and> similarity 64 5 5 = Some (Inr 1) \<and>
   similarity 64 3 5 = Some (Inr (31 / 32))"
proof -
  have pre: "(0::int) \<le> 5" "(5::int) < 2 ^ 64" "(0::int) \<le> 3" "(3::int) < 2 ^ 64"
    by simp_all
  note t = similarity_popcount [OF pre]
  have v: "1 - real (popcount (nat (5 XOR 3))) / 64 = 31 / 32"
    by (simp add: popcount_six)
  have s1: "similarity 64 5 3 = Some (Inr (31 / 32))"
    using t unfolding v by blast
  have s2: "similarity 64 5 5 = Some (Inr 1)"
    using t by blast
  have s3: "similarity 64 5 3 = similarity 64 3 5"
    using t by blast
  have s4: "similarity 64 3 5 = Some (Inr (31 / 32))"
    using s1 unfolding s3 .
  show ?thesis
    by (intro conjI pre s1 s2 s4)
qed

end
